theory Spec2Isabelle
  imports Main "HOL-Library.Char_ord" "HOL-Library.List_Lexorder" "HOL-Library.Multiset"
begin

unbundle bit_operations_syntax

section \<open>The program: five_cliques.py\<close>

text \<open>
  The search for five five-letter words that share no letter. Python integers are
  unbounded, so a letter set is an \<open>int\<close>; a counter that only counts up from zero is a
  \<open>nat\<close>. A Python string is a \<open>string\<close>, every \<open>char\<close> standing for the code point
  \<open>of_char c\<close> (so the model covers text with code points below 256). Every exception
  the source can raise is a value of \<open>error\<close>; a function that may raise returns
  \<open>error + 'a\<close>, with \<open>Inr\<close> for a normal return.
\<close>

datatype error =
    ValueError          \<comment> \<open>\<open>1 << alphaIndex\<close> with a negative shift count\<close>
  | KeyError int        \<comment> \<open>subscript of a plain dict with a missing key\<close>
  | Nontermination      \<comment> \<open>the \<open>while\<close> loop of \<open>bit_count\<close> never exits\<close>
  | OutOfFuel           \<comment> \<open>\<open>merge\<close> nested deeper than the recursion budget it was given\<close>

subsection \<open>Letter-set codec\<close>

text \<open>\<open>letter_set\<close>: the loop \<open>for char in word: ret |= 1 << (ord(char) - ord("a"))\<close>.\<close>

fun letter_set_loop :: "int \<Rightarrow> string \<Rightarrow> error + int" where
  "letter_set_loop ret [] = Inr ret"
| "letter_set_loop ret (char # word) =
     (let alphaIndex = of_char char - of_char CHR ''a'' :: int in
      if alphaIndex < 0 then Inl ValueError
      else letter_set_loop (ret OR push_bit (nat alphaIndex) 1) word)"

definition letter_set :: "string \<Rightarrow> error + int" where
  "letter_set word = letter_set_loop 0 word"

text \<open>
  \<open>bit_count\<close>: \<open>while num: num &= num - 1; count += 1\<close>. On a negative number the
  loop never reaches zero, so the loop is a partial function: \<open>None\<close> is "does not
  return".
\<close>

partial_function (option) bit_count_loop :: "int \<Rightarrow> nat \<Rightarrow> nat option" where
  "bit_count_loop num cnt =
     (if num \<noteq> 0 then bit_count_loop (num AND (num - 1)) (cnt + 1) else Some cnt)"

declare bit_count_loop.simps [code]

definition bit_count :: "int \<Rightarrow> nat option" where
  "bit_count num = bit_count_loop num 0"

subsection \<open>Anagram index\<close>

text \<open>
  \<open>read_words\<close> receives the lines of the word file. A Python dict keeps its keys in
  insertion order, so the index is an association list; \<open>append_word\<close> is
  \<open>anagrams[char_set].append(word)\<close> on a \<open>defaultdict(list)\<close>. \<open>isspace\<close> lists the
  code points below 256 that \<open>str.strip()\<close> removes.
\<close>

type_synonym anagram_index = "(int \<times> string list) list"

definition isspace :: "char \<Rightarrow> bool" where
  "isspace c = ((of_char c :: nat) \<in> {9, 10, 11, 12, 13, 28, 29, 30, 31, 32, 133, 160})"

definition strip :: "string \<Rightarrow> string" where
  "strip word = rev (dropWhile isspace (rev (dropWhile isspace word)))"

fun append_word :: "int \<Rightarrow> string \<Rightarrow> anagram_index \<Rightarrow> anagram_index" where
  "append_word char_set word [] = [(char_set, [word])]"
| "append_word char_set word ((k, ws) # anagrams) =
     (if k = char_set then (k, ws @ [word]) # anagrams
      else (k, ws) # append_word char_set word anagrams)"

fun read_words_loop :: "anagram_index \<Rightarrow> string list \<Rightarrow> error + anagram_index" where
  "read_words_loop anagrams [] = Inr anagrams"
| "read_words_loop anagrams (line # f) =
     (let word = strip line in
      if length word \<noteq> 5 then read_words_loop anagrams f
      else case letter_set word of
        Inl e \<Rightarrow> Inl e
      | Inr char_set \<Rightarrow>
          (case bit_count char_set of
             None \<Rightarrow> Inl Nontermination
           | Some n \<Rightarrow>
               if n \<noteq> 5 then read_words_loop anagrams f
               else read_words_loop (append_word char_set word anagrams) f))"

definition read_words :: "string list \<Rightarrow> error + anagram_index" where
  "read_words f = read_words_loop [] f"

subsection \<open>Disjointness graph\<close>

text \<open>
  \<open>neighbor_graph\<close>: for the key at position \<open>i\<close> of the sorted keys, the inner loop
  runs over the slice \<open>anagram_sets[i + 1:]\<close> and adds every key with an empty
  intersection. The result is a plain dict, one entry per key, looked up with \<open>map_of\<close>.
\<close>

type_synonym graph = "(int \<times> int set) list"

definition neighbors_of :: "int \<Rightarrow> int list \<Rightarrow> int set" where
  "neighbors_of char_set others =
     fold (\<lambda>other_set neighbors.
             if char_set AND other_set = 0 then insert other_set neighbors else neighbors)
          others {}"

definition neighbor_graph :: "anagram_index \<Rightarrow> graph" where
  "neighbor_graph anagrams =
     (let anagram_sets = sort (map fst anagrams) in
      map (\<lambda>i. (anagram_sets ! i, neighbors_of (anagram_sets ! i) (drop (i + 1) anagram_sets)))
          [0..<length anagram_sets])"

subsection \<open>Clique search\<close>

definition ascii_lowercase :: string where
  "ascii_lowercase = ''abcdefghijklmnopqrstuvwxyz''"

definition ALL_LETTERS :: int where
  "ALL_LETTERS = (case letter_set ascii_lowercase of Inr v \<Rightarrow> v | Inl e \<Rightarrow> 0)"

text \<open>\<open>untangle_words\<close>: the generator, consumed by \<open>tuple\<close>; \<open>reversed(words)\<close> is \<open>rev\<close>.\<close>

fun untangle_loop :: "int \<Rightarrow> int list \<Rightarrow> int list" where
  "untangle_loop remain [] = []"
| "untangle_loop remain (w # ws) =
     (let word = w AND remain in word # untangle_loop (remain - word) ws)"

definition untangle_words :: "int list \<Rightarrow> int list" where
  "untangle_words words = untangle_loop ALL_LETTERS (rev words)"

definition TOTAL_LENGTH :: nat where
  "TOTAL_LENGTH = 5"

definition TOTAL_LENGTH_MINUS_ONE :: nat where
  "TOTAL_LENGTH_MINUS_ONE = 4"

text \<open>
  The state the search mutates: the module-level set \<open>__prune\<close> and the list \<open>cliques\<close>
  that \<open>main\<close> passes to every call.
\<close>

record search_state =
  prune :: "int set"
  cliques :: "int list list"

text \<open>
  The order in which a \<open>for\<close> loop visits a Python set is fixed by the interpreter's hash
  table, not by the program. The model takes it as a parameter: \<open>ord path s\<close> is the
  order in which the call of \<open>merge\<close> with positional arguments \<open>path\<close> visits its set
  \<open>s\<close>. A valid order lists every element of a finite set exactly once.
\<close>

type_synonym set_order = "int list \<Rightarrow> int set \<Rightarrow> int list"

definition valid_order :: "set_order \<Rightarrow> bool" where
  "valid_order ord = (\<forall>path s. finite s \<longrightarrow> set (ord path s) = s \<and> distinct (ord path s))"

text \<open>
  \<open>merge\<close>, with its \<open>for\<close> loop as \<open>merge_loop\<close> (the loop variable \<open>result\<close> and the
  state are threaded through). The first argument bounds the nesting of calls: a call
  with no budget left is \<open>Inl OutOfFuel\<close>, every other call does what the source does.
\<close>

fun merge :: "nat \<Rightarrow> set_order \<Rightarrow> int \<Rightarrow> int list \<Rightarrow> int set \<Rightarrow> graph \<Rightarrow> search_state
                \<Rightarrow> error + (bool \<times> search_state)"
  and merge_loop :: "nat \<Rightarrow> set_order \<Rightarrow> int \<Rightarrow> int list \<Rightarrow> int set \<Rightarrow> graph \<Rightarrow> int list
                \<Rightarrow> bool \<Rightarrow> search_state \<Rightarrow> error + (bool \<times> search_state)" where
  "merge 0 ord last_word words neighbors graph st = Inl OutOfFuel"
| "merge (Suc fuel) ord last_word words neighbors graph st =
     (let num_words = length words + 1 in
      if card neighbors + num_words < TOTAL_LENGTH then Inr (False, st)
      else if num_words = TOTAL_LENGTH_MINUS_ONE then
        Inr (True, st\<lparr>cliques := cliques st @
               map (\<lambda>neighbor_word.
                      let all_letters = neighbor_word OR last_word in
                      untangle_words (all_letters # last_word # words))
                   (ord (last_word # words) neighbors)\<rparr>)
      else merge_loop fuel ord last_word words neighbors graph
             (ord (last_word # words) neighbors) False st)"
| "merge_loop fuel ord last_word words neighbors graph [] result st = Inr (result, st)"
| "merge_loop fuel ord last_word words neighbors graph (neighbor_word # rest) result st =
     (if last_word AND neighbor_word \<noteq> 0 then
        merge_loop fuel ord last_word words neighbors graph rest result st
      else
        let shared_letters = last_word OR neighbor_word in
        if shared_letters \<in> prune st then
          merge_loop fuel ord last_word words neighbors graph rest result st
        else
          case map_of graph neighbor_word of
            None \<Rightarrow> Inl (KeyError neighbor_word)
          | Some adjacent \<Rightarrow>
              (case merge fuel ord shared_letters (last_word # words)
                      (neighbors \<inter> adjacent) graph st of
                 Inl e \<Rightarrow> Inl e
               | Inr (True, st') \<Rightarrow>
                   merge_loop fuel ord last_word words neighbors graph rest True st'
               | Inr (False, st') \<Rightarrow>
                   merge_loop fuel ord last_word words neighbors graph rest result
                     (st'\<lparr>prune := insert shared_letters (prune st')\<rparr>)))"

subsection \<open>Expansion and the main program\<close>

text \<open>
  \<open>expand\<close>: \<open>[anagrams[word] for word in word_list]\<close> raises on a missing key;
  \<open>itertools.product\<close> enumerates as \<open>product_lists\<close> does, last position fastest.
\<close>

fun lookup_all :: "anagram_index \<Rightarrow> int list \<Rightarrow> error + string list list" where
  "lookup_all anagrams [] = Inr []"
| "lookup_all anagrams (word # word_list) =
     (case map_of anagrams word of
        None \<Rightarrow> Inl (KeyError word)
      | Some ws \<Rightarrow>
          (case lookup_all anagrams word_list of
             Inl e \<Rightarrow> Inl e
           | Inr all_anagrams \<Rightarrow> Inr (ws # all_anagrams)))"

definition expand :: "int list \<Rightarrow> anagram_index \<Rightarrow> error + string list list" where
  "expand word_list anagrams =
     (case lookup_all anagrams word_list of
        Inl e \<Rightarrow> Inl e
      | Inr all_anagrams \<Rightarrow> Inr (product_lists all_anagrams))"

text \<open>The loop \<open>for word in anagram_sets: merge(word, neighbors=graph[word], ...)\<close>.\<close>

fun find_cliques :: "nat \<Rightarrow> set_order \<Rightarrow> graph \<Rightarrow> int list \<Rightarrow> search_state
                       \<Rightarrow> error + search_state" where
  "find_cliques fuel ord graph [] st = Inr st"
| "find_cliques fuel ord graph (word # anagram_sets) st =
     (case map_of graph word of
        None \<Rightarrow> Inl (KeyError word)
      | Some neighbors \<Rightarrow>
          (case merge fuel ord word [] neighbors graph st of
             Inl e \<Rightarrow> Inl e
           | Inr (found, st') \<Rightarrow> find_cliques fuel ord graph anagram_sets st'))"

text \<open>
  The generator inside \<open>sorted(...)\<close>: for each clique, each expanded tuple with its
  words sorted.
\<close>

fun sorted_tuples :: "anagram_index \<Rightarrow> int list list \<Rightarrow> error + string list list" where
  "sorted_tuples anagrams [] = Inr []"
| "sorted_tuples anagrams (cliq # cliqs) =
     (case expand cliq anagrams of
        Inl e \<Rightarrow> Inl e
      | Inr expanded \<Rightarrow>
          (case sorted_tuples anagrams cliqs of
             Inl e \<Rightarrow> Inl e
           | Inr tuples \<Rightarrow> Inr (map sort expanded @ tuples)))"

text \<open>
  \<open>main\<close>, from the lines of the word file and the value the module-level \<open>__prune\<close>
  has when \<open>main\<close> is called, to the rows written to the output file and the value
  \<open>__prune\<close> has afterwards. \<open>main\<close> itself never assigns \<open>__prune\<close>; the module body
  creates it empty when the module is loaded (\<open>prune_at_load\<close>). \<open>search\<close> is the part
  of \<open>main\<close> between reading the words and expanding the cliques: it builds the graph,
  sorts the keys, starts with an empty list \<open>cliques\<close> and runs the loop. The second
  argument of \<open>main\<close> and \<open>search\<close> is the order in which sets are visited, the first
  the recursion budget given to every top-level call of \<open>merge\<close>.
\<close>

definition prune_at_load :: "int set" where
  "prune_at_load = {}"

definition search :: "nat \<Rightarrow> set_order \<Rightarrow> int set \<Rightarrow> anagram_index \<Rightarrow> error + search_state" where
  "search fuel ord prune0 anagrams =
     (let graph = neighbor_graph anagrams;
          anagram_sets = sort (map fst anagrams)
      in find_cliques fuel ord graph anagram_sets \<lparr>prune = prune0, cliques = []\<rparr>)"

definition main :: "nat \<Rightarrow> set_order \<Rightarrow> int set \<Rightarrow> string list
                      \<Rightarrow> error + (string list list \<times> int set)" where
  "main fuel ord prune0 f =
     (case read_words f of
        Inl e \<Rightarrow> Inl e
      | Inr anagrams \<Rightarrow>
          (case search fuel ord prune0 anagrams of
             Inl e \<Rightarrow> Inl e
           | Inr st \<Rightarrow>
               (case sorted_tuples anagrams (cliques st) of
                  Inl e \<Rightarrow> Inl e
                | Inr tuples \<Rightarrow> Inr (sort tuples, prune st))))"

section \<open>Notions used to state the properties\<close>

text \<open>
  An anagram index as the search expects it: a dict (distinct keys) whose keys are
  letter sets over the 26 letters with exactly five letters each. \<open>read_words\<close> returns
  such an index on every input of lowercase words.
\<close>

definition anagram_index_ok :: "anagram_index \<Rightarrow> bool" where
  "anagram_index_ok anagrams =
     (distinct (map fst anagrams)
      \<and> (\<forall>k\<in>fst ` set anagrams. 0 \<le> k \<and> k < 2 ^ 26 \<and> bit_count k = Some 5))"

definition lowercase :: "string \<Rightarrow> bool" where
  "lowercase w = (\<forall>c\<in>set w. CHR ''a'' \<le> c \<and> c \<le> CHR ''z'')"

text \<open>
  The class of a key: the words of a list that \<open>read_words\<close> files under it, in the
  order of the list.
\<close>

definition word_class :: "int \<Rightarrow> string list \<Rightarrow> string list" where
  "word_class k ws =
     filter (\<lambda>w. length w = 5 \<and> letter_set w = Inr k \<and> bit_count k = Some 5) ws"

text \<open>
  A set of keys no two of which share a letter.
\<close>

definition letter_disjoint :: "int set \<Rightarrow> bool" where
  "letter_disjoint Q = (\<forall>a\<in>Q. \<forall>b\<in>Q. a \<noteq> b \<longrightarrow> a AND b = 0)"

text \<open>
  The arguments \<open>merge\<close> is called with after the letter sets \<open>cs\<close> have been chosen
  in this order: \<open>last_word\<close> is the union of all of them, and \<open>words\<close> holds the unions
  of the shorter prefixes, the longest first. \<open>running_unions cs\<close> is \<open>last_word # words\<close>.
\<close>

definition union_of :: "int list \<Rightarrow> int" where
  "union_of cs = foldr (OR) cs 0"

definition running_unions :: "int list \<Rightarrow> int list" where
  "running_unions cs = map (\<lambda>n. union_of (take n cs)) (rev [1..<length cs + 1])"

text \<open>
  Two orders of visiting a set, both valid: ascending and descending.
\<close>

definition sorted_set_order :: set_order where
  "sorted_set_order path s = sorted_list_of_set s"

definition reversed_set_order :: set_order where
  "reversed_set_order path s = rev (sorted_list_of_set s)"

section \<open>Notions used in the proofs\<close>

text \<open>
  The positions of the bits set in a number, and the bit a letter is encoded by.
\<close>

definition bits :: "int \<Rightarrow> nat set" where
  "bits n = {i. bit n i}"

definition alpha_index :: "char \<Rightarrow> nat" where
  "alpha_index c = of_char c - of_char CHR ''a''"

text \<open>
  The search space over a set \<open>K\<close> of keys. An edge of the graph goes from \<open>a\<close> to \<open>b\<close>
  when \<open>disjoint_after a b\<close>; a chain is a path of the graph in which every two letter
  sets are joined by an edge; the candidates of a chain are the keys that extend it; its
  completions are the extensions to a chain of five; the quintets are the chains of five.
\<close>

definition disjoint_after :: "int \<Rightarrow> int \<Rightarrow> bool" where
  "disjoint_after a b = (a < b \<and> a AND b = 0)"

definition chain :: "int set \<Rightarrow> int list \<Rightarrow> bool" where
  "chain K cs = (set cs \<subseteq> K \<and> sorted_wrt disjoint_after cs)"

definition candidates :: "int set \<Rightarrow> int list \<Rightarrow> int set" where
  "candidates K cs = {x \<in> K. \<forall>c\<in>set cs. disjoint_after c x}"

definition completions :: "int set \<Rightarrow> int list \<Rightarrow> int list set" where
  "completions K cs = {xs. chain K (cs @ xs) \<and> length (cs @ xs) = 5}"

definition quintets :: "int set \<Rightarrow> int list set" where
  "quintets K = {xs. chain K xs \<and> length xs = 5}"

definition letter_sets_ok :: "int set \<Rightarrow> bool" where
  "letter_sets_ok K = (finite K \<and> (\<forall>k\<in>K. 0 \<le> k \<and> k < 2 ^ 26 \<and> card (bits k) = 5))"

definition graph_of :: "int set \<Rightarrow> graph \<Rightarrow> bool" where
  "graph_of K graph =
     (\<forall>a. map_of graph a = (if a \<in> K then Some {b \<in> K. disjoint_after a b} else None))"

definition setting :: "int set \<Rightarrow> graph \<Rightarrow> set_order \<Rightarrow> bool" where
  "setting K graph ord = (letter_sets_ok K \<and> graph_of K graph \<and> valid_order ord)"

text \<open>
  The invariant of the prune cache: a cached union has no completion, whichever chain
  it is the union of. \<open>grows\<close> relates the state before and after a call: the cliques
  appended are the set \<open>E\<close>, each once, and the cache has grown and is still sound.
  \<open>merge_post\<close> and \<open>loop_post\<close> are the results of \<open>merge\<close> and of its loop on the
  chain \<open>cs\<close>.
\<close>

definition sound :: "int set \<Rightarrow> int set \<Rightarrow> bool" where
  "sound K P = (\<forall>cs. chain K cs \<and> cs \<noteq> [] \<and> union_of cs \<in> P \<longrightarrow> completions K cs = {})"

definition emitted :: "int set \<Rightarrow> int list \<Rightarrow> int set \<Rightarrow> int list set" where
  "emitted K cs X = (\<Union>x\<in>X. (\<lambda>xs. cs @ x # xs) ` completions K (cs @ [x]))"

definition grows :: "int set \<Rightarrow> search_state \<Rightarrow> search_state \<Rightarrow> int list set \<Rightarrow> bool" where
  "grows K st st' E =
     ((\<exists>new. cliques st' = cliques st @ new \<and> distinct new \<and> set new = E)
      \<and> sound K (prune st') \<and> prune st \<subseteq> prune st')"

definition loop_post ::
  "int set \<Rightarrow> int list \<Rightarrow> int list \<Rightarrow> bool \<Rightarrow> search_state
     \<Rightarrow> error + (bool \<times> search_state) \<Rightarrow> bool" where
  "loop_post K cs rest r st res =
     (\<exists>r' st'. res = Inr (r', st') \<and> (r' \<longleftrightarrow> r \<or> emitted K cs (set rest) \<noteq> {})
        \<and> grows K st st' (emitted K cs (set rest)))"

definition merge_post ::
  "int set \<Rightarrow> int list \<Rightarrow> search_state \<Rightarrow> error + (bool \<times> search_state) \<Rightarrow> bool" where
  "merge_post K cs st res =
     (\<exists>b st'. res = Inr (b, st') \<and> (b \<longleftrightarrow> completions K cs \<noteq> {})
        \<and> grows K st st' ((@) cs ` completions K cs))"

text \<open>
  The index as a total lookup, the word tuples of a clique, and the key a word is
  filed under.
\<close>

definition lookup :: "anagram_index \<Rightarrow> int \<Rightarrow> string list" where
  "lookup anagrams k = (case map_of anagrams k of None \<Rightarrow> [] | Some ws \<Rightarrow> ws)"

definition tuples_of :: "anagram_index \<Rightarrow> int list \<Rightarrow> string list list" where
  "tuples_of anagrams cliq = map sort (product_lists (map (lookup anagrams) cliq))"

definition key_of :: "string \<Rightarrow> int" where
  "key_of w = (case letter_set w of Inr k \<Rightarrow> k | Inl e \<Rightarrow> 0)"

definition classes_ok :: "anagram_index \<Rightarrow> bool" where
  "classes_ok anagrams = (\<forall>k. distinct (lookup anagrams k) \<and> (\<forall>w\<in>set (lookup anagrams k). letter_set w = Inr k))"

text \<open>
  The content of the prune cache. A call of \<open>merge\<close> for the chosen keys \<open>cs\<close>
  enters its loop when fewer than four keys are chosen and the bound check passes
  (\<open>loops\<close>). The failed branches are the chains of two or more keys that have no
  completion and all of whose non-empty proper prefixes enter the loop; \<open>failed_branches\<close> is
  the set of their unions. \<open>dead_below K cs\<close> is the part of it below the chain
  \<open>cs\<close>, \<open>branch_entries\<close> the part below and at one candidate, and a cache is
  closed when with the union of a chain it holds all that lies below the chain.
\<close>

definition loops :: "int set \<Rightarrow> int list \<Rightarrow> bool" where
  "loops K cs = (length cs < 4 \<and> 5 \<le> card (candidates K cs) + length cs)"

definition dead_below :: "int set \<Rightarrow> int list \<Rightarrow> int set" where
  "dead_below K cs =
     {union_of (cs @ zs) | zs. zs \<noteq> [] \<and> chain K (cs @ zs) \<and> completions K (cs @ zs) = {}
        \<and> (\<forall>n<length zs. loops K (cs @ take n zs))}"

definition branch_entries :: "int set \<Rightarrow> int list \<Rightarrow> int \<Rightarrow> int set" where
  "branch_entries K cs x =
     (if completions K (cs @ [x]) = {} then {union_of (cs @ [x])} else {})
     \<union> dead_below K (cs @ [x])"

definition cache_closed :: "int set \<Rightarrow> int set \<Rightarrow> bool" where
  "cache_closed K P = (\<forall>cs. chain K cs \<and> cs \<noteq> [] \<and> union_of cs \<in> P \<longrightarrow> dead_below K cs \<subseteq> P)"

definition failed_branches :: "int set \<Rightarrow> int set" where
  "failed_branches K =
     {union_of zs | zs. 2 \<le> length zs \<and> chain K zs \<and> completions K zs = {}
        \<and> (\<forall>n. 0 < n \<and> n < length zs \<longrightarrow> loops K (take n zs))}"

section \<open>Bit counting and the codec\<close>

lemma clear_lowest:
  "0 < n \<Longrightarrow> \<exists>k. bit n k \<and> (\<forall>i. bit (n AND (n - 1)) i \<longleftrightarrow> bit n i \<and> i \<noteq> k)" for n :: int
proof (induction "nat n" arbitrary: n rule: less_induct)
  case less
  show ?case
  proof (cases "odd n")
    case True
    have "bit (n AND (n - 1)) i \<longleftrightarrow> bit n i \<and> i \<noteq> 0" for i
    proof (cases i)
      case 0
      then show ?thesis using True by (simp add: bit_and_iff bit_0 even_and_iff)
    next
      case (Suc j)
      have "(n - 1) div 2 = n div 2" using True by presburger
      then show ?thesis using Suc unfolding bit_and_iff by (simp add: bit_Suc)
    qed
    moreover have "bit n 0" using True by (simp add: bit_0)
    ultimately show ?thesis by blast
  next
    case False
    define m where "m = n div 2"
    from False obtain q where q: "n = 2 * q" by (auto elim: evenE)
    have m: "0 < m" "nat m < nat n" "n = 2 * m" using q less.prems unfolding m_def by simp_all
    from less.hyps[OF m(2) m(1)] obtain k where k: "bit m k" "\<And>i. bit (m AND (m - 1)) i \<longleftrightarrow> bit m i \<and> i \<noteq> k"
      by blast
    have d: "(n - 1) div 2 = m - 1" using m(3) by presburger
    have "bit (n AND (n - 1)) i \<longleftrightarrow> bit n i \<and> i \<noteq> Suc k" for i
    proof (cases i)
      case 0
      then show ?thesis using False by (simp add: bit_and_iff bit_0 even_and_iff)
    next
      case (Suc j)
      have "bit (n AND (n - 1)) (Suc j) \<longleftrightarrow> bit (m AND (m - 1)) j"
        unfolding bit_and_iff by (simp add: bit_Suc d m_def)
      then show ?thesis using Suc k(2)[of j] by (simp add: bit_Suc m_def)
    qed
    moreover have "bit n (Suc k)" using k(1) by (simp add: bit_Suc m_def)
    ultimately show ?thesis by blast
  qed
qed

lemma bit_imp_ge: "0 \<le> n \<Longrightarrow> bit n i \<Longrightarrow> 2 ^ i \<le> n" for n :: int
  by (rule ccontr) (simp add: bit_int_def div_pos_pos_trivial)

lemma finite_bits: "0 \<le> n \<Longrightarrow> finite (bits n)"
proof -
  assume n: "0 \<le> n"
  have "bits n \<subseteq> {..< nat n}"
  proof
    fix i assume "i \<in> bits n"
    then have "2 ^ i \<le> n" using n by (simp add: bits_def bit_imp_ge)
    moreover have "int i < int (2 ^ i)" using less_exp[of i] by (simp only: of_nat_less_iff)
    then have "int i < 2 ^ i" by simp
    ultimately have "int i < n" by linarith
    then show "i \<in> {..< nat n}" by simp
  qed
  then show ?thesis by (rule finite_subset) simp
qed

lemma bits_0 [simp]: "bits 0 = {}"
  by (simp add: bits_def)

lemma bits_OR: "bits (a OR b) = bits a \<union> bits b"
  by (auto simp: bits_def bit_or_iff)

lemma bits_AND: "bits (a AND b) = bits a \<inter> bits b"
  by (auto simp: bits_def bit_and_iff)

lemma bits_eq_iff: "bits a = bits b \<longleftrightarrow> a = b"
  by (auto simp: bits_def intro: bit_eqI)

lemma bits_pow: "bits (2 ^ k) = {k}"
  by (auto simp: bits_def bit_exp_iff)

lemma bits_shift: "bits (push_bit k 1) = {k}"
  by (simp add: bits_pow)

lemma bit_count_loop_correct:
  "0 \<le> n \<Longrightarrow> bit_count_loop n c = Some (c + card (bits n))"
proof (induction "nat n" arbitrary: n c rule: less_induct)
  case less
  show ?case
  proof (cases "n = 0")
    case True
    then show ?thesis by (simp add: bit_count_loop.simps)
  next
    case False
    with less.prems have pos: "0 < n" by simp
    from clear_lowest[OF pos] obtain k where k: "bit n k"
      "\<And>i. bit (n AND (n - 1)) i \<longleftrightarrow> bit n i \<and> i \<noteq> k" by blast
    have b: "bits (n AND (n - 1)) = bits n - {k}" using k(2) by (auto simp: bits_def)
    have kin: "k \<in> bits n" using k(1) by (simp add: bits_def)
    have ge: "0 \<le> n AND (n - 1)" using less.prems by (simp add: AND_lower)
    have "n AND (n - 1) \<le> n - 1" using pos by (intro AND_upper2) simp
    then have lt: "nat (n AND (n - 1)) < nat n" using pos by linarith
    have fin: "finite (bits n)" using less.prems by (rule finite_bits)
    have "card (bits n) = Suc (card (bits n - {k}))"
      using fin kin by (rule card.remove)
    then have c: "Suc (c + card (bits (n AND (n - 1)))) = c + card (bits n)"
      by (simp only: b add_Suc_right)
    have "bit_count_loop n c = bit_count_loop (n AND (n - 1)) (c + 1)"
      using False by (subst bit_count_loop.simps) simp
    also have "\<dots> = Some (c + 1 + card (bits (n AND (n - 1))))"
      by (rule less.hyps[OF lt ge])
    finally show ?thesis using c by simp
  qed
qed

lemma bit_count_correct: "0 \<le> n \<Longrightarrow> bit_count n = Some (card (bits n))"
  by (simp add: bit_count_def bit_count_loop_correct)

lemma letter_set_loop_bits:
  "\<forall>c\<in>set word. CHR ''a'' \<le> c \<Longrightarrow>
   \<exists>r. letter_set_loop ret word = Inr r \<and> bits r = bits ret \<union> alpha_index ` set word
      \<and> (0 \<le> ret \<longrightarrow> 0 \<le> r)"
proof (induction word arbitrary: ret)
  case Nil
  then show ?case by simp
next
  case (Cons c word)
  have "(97::nat) \<le> of_char c" using Cons.prems by (simp add: less_eq_char_def)
  then have "int 97 \<le> int (of_char c)" by (simp only: of_nat_le_iff)
  then have ge: "(97::int) \<le> of_char c" by (simp add: of_nat_of_char)
  have "nat (of_char c - 97) = nat (int (of_char c) - int 97)" by (simp add: of_nat_of_char)
  then have idx: "nat (of_char c - 97) = alpha_index c"
    by (simp add: alpha_index_def)
  from Cons.IH[of "ret OR push_bit (alpha_index c) 1"] Cons.prems
  obtain r where r: "letter_set_loop (ret OR push_bit (alpha_index c) 1) word = Inr r"
    "bits r = bits (ret OR push_bit (alpha_index c) 1) \<union> alpha_index ` set word"
    "0 \<le> ret OR push_bit (alpha_index c) 1 \<longrightarrow> 0 \<le> r" by auto
  show ?case using r ge idx by (auto simp: Let_def bits_OR bits_pow)
qed

lemma alpha_index_inj: "\<forall>c\<in>A. CHR ''a'' \<le> c \<Longrightarrow> inj_on alpha_index A"
proof (rule inj_onI)
  fix x y assume a: "\<forall>c\<in>A. CHR ''a'' \<le> c" "x \<in> A" "y \<in> A" "alpha_index x = alpha_index y"
  then have "(97::nat) \<le> of_char x" "(97::nat) \<le> of_char y" by (auto simp: less_eq_char_def)
  moreover have "(of_char x :: nat) - 97 = of_char y - 97" using a(4) by (simp add: alpha_index_def)
  ultimately have "(of_char x :: nat) = of_char y" by linarith
  then show "x = y" by (simp only: of_char_eq_iff)
qed

lemma letter_set_total:
  assumes "\<forall>c\<in>set word. CHR ''a'' \<le> c"
  shows "\<exists>r. letter_set word = Inr r \<and> 0 \<le> r \<and> bits r = alpha_index ` set word
          \<and> bit_count r = Some (card (set word))"
proof -
  from letter_set_loop_bits[OF assms, of 0] obtain r where
    r: "letter_set word = Inr r" "bits r = alpha_index ` set word" "0 \<le> r"
    by (auto simp: letter_set_def)
  have "card (bits r) = card (set word)"
    using r(2) alpha_index_inj[OF assms] by (simp add: card_image)
  then show ?thesis using r by (simp add: bit_count_correct)
qed

section \<open>Letter sets as bit sets: order and disjointness\<close>

lemma and_zero_iff_bits: "a AND b = 0 \<longleftrightarrow> bits a \<inter> bits b = {}"
  by (metis bits_0 bits_AND bits_eq_iff)

lemma or_and_zero_iff: "(a OR b) AND x = 0 \<longleftrightarrow> a AND x = 0 \<and> b AND x = 0" for a b x :: int
  by (simp only: and_zero_iff_bits bits_OR Int_Un_distrib2 Un_empty)

lemma below_top_bit:
  "0 \<le> a \<Longrightarrow> a AND x = 0 \<Longrightarrow> a < x \<Longrightarrow> \<exists>n. a < 2 ^ n \<and> 2 ^ n \<le> x" for a x :: int
proof (induction "nat x" arbitrary: a x rule: less_induct)
  case less
  have xpos: "0 < x" using less.prems by linarith
  have a2: "0 \<le> a div 2" using less.prems(1) by simp
  have and2: "a div 2 AND x div 2 = 0"
  proof (rule bit_eqI)
    fix n
    have "bits a \<inter> bits x = {}" using less.prems(2) by (simp add: and_zero_iff_bits)
    then have "\<not> (bit a (Suc n) \<and> bit x (Suc n))" by (auto simp: bits_def)
    then show "bit (a div 2 AND x div 2) n = bit (0::int) n"
      by (simp add: bit_and_iff bit_Suc)
  qed
  have le2: "a div 2 \<le> x div 2" using less.prems(3) by (simp add: zdiv_mono1)
  show ?case
  proof (cases "a div 2 = x div 2")
    case True
    then have "a div 2 = 0" using and2 by simp
    then have "x div 2 = 0" using True by simp
    then have "x = 1" using xpos by presburger
    moreover have "a = 0" using less.prems(1,3) \<open>x = 1\<close> by linarith
    ultimately have "a = 0" "x = 1" by simp_all
    then have "a < 2 ^ 0 \<and> 2 ^ 0 \<le> x" by simp
    then show ?thesis by blast
  next
    case False
    then have lt2: "a div 2 < x div 2" using le2 by simp
    have "nat (x div 2) < nat x" using xpos by simp
    from less.hyps[OF this a2 and2 lt2] obtain n where n: "a div 2 < 2 ^ n" "2 ^ n \<le> x div 2"
      by blast
    have "a < 2 ^ Suc n" using n(1) by simp
    moreover have "2 ^ Suc n \<le> x" using n(2) by simp
    ultimately show ?thesis by blast
  qed
qed

lemma or_below:
  fixes a b x :: int
  assumes "0 \<le> a" "0 \<le> b" "a AND x = 0" "b AND x = 0" "a < x" "b < x"
  shows "a OR b < x"
proof -
  from below_top_bit[OF assms(1,3,5)] obtain n where n: "a < 2 ^ n" "2 ^ n \<le> x" by blast
  from below_top_bit[OF assms(2,4,6)] obtain m where m: "b < 2 ^ m" "2 ^ m \<le> x" by blast
  define k where "k = max n m"
  have "(2::int) ^ n \<le> 2 ^ k" "(2::int) ^ m \<le> 2 ^ k" by (simp_all add: k_def)
  then have "a < 2 ^ k" "b < 2 ^ k" using n(1) m(1) by linarith+
  then have "a OR b < 2 ^ k" using assms(1) by (intro OR_upper)
  moreover have "(2::int) ^ k \<le> x" using n(2) m(2) by (simp add: k_def max_def)
  ultimately show ?thesis by linarith
qed

lemma union_of_simps [simp]:
  "union_of [] = 0" "union_of (c # cs) = c OR union_of cs"
  by (simp_all add: union_of_def)

lemma union_of_append: "union_of (cs @ ds) = union_of cs OR union_of ds"
  by (induction cs) (simp_all add: or.assoc)

lemma union_of_snoc: "union_of (cs @ [x]) = union_of cs OR x"
  by (simp add: union_of_append)

lemma union_of_nonneg: "\<forall>c\<in>set cs. 0 \<le> c \<Longrightarrow> 0 \<le> union_of cs"
  by (induction cs) simp_all

lemma bits_union_of: "bits (union_of cs) = (\<Union>c\<in>set cs. bits c)"
  by (induction cs) (simp_all add: bits_OR)

lemma union_of_and_zero_iff: "union_of cs AND x = 0 \<longleftrightarrow> (\<forall>c\<in>set cs. c AND x = 0)"
  by (induction cs) (simp_all add: or_and_zero_iff)

lemma union_of_below:
  assumes "\<forall>c\<in>set cs. 0 \<le> c" "cs \<noteq> []" "0 \<le> x"
  shows "(\<forall>c\<in>set cs. disjoint_after c x) \<longleftrightarrow> disjoint_after (union_of cs) x"
  using assms
proof (induction cs)
  case Nil
  then show ?case by simp
next
  case (Cons c cs)
  show ?case
  proof (cases "cs = []")
    case True
    then show ?thesis by simp
  next
    case False
    have nn: "0 \<le> c" "0 \<le> union_of cs" using Cons.prems(1) by (simp_all add: union_of_nonneg)
    have IH: "(\<forall>c\<in>set cs. disjoint_after c x) \<longleftrightarrow> disjoint_after (union_of cs) x"
      using Cons.IH Cons.prems False by simp
    have "disjoint_after c x \<and> disjoint_after (union_of cs) x
            \<longleftrightarrow> disjoint_after (c OR union_of cs) x"
    proof
      assume a: "disjoint_after c x \<and> disjoint_after (union_of cs) x"
      then have "c OR union_of cs < x"
        using nn by (intro or_below) (simp_all add: disjoint_after_def)
      then show "disjoint_after (c OR union_of cs) x"
        using a by (simp add: disjoint_after_def or_and_zero_iff)
    next
      assume a: "disjoint_after (c OR union_of cs) x"
      have "c \<le> c OR union_of cs" using nn by (simp add: or_greater_eq)
      moreover have "union_of cs \<le> c OR union_of cs"
        using nn or_greater_eq[of c "union_of cs"] by (simp add: or.commute)
      ultimately show "disjoint_after c x \<and> disjoint_after (union_of cs) x"
        using a by (auto simp: disjoint_after_def or_and_zero_iff)
    qed
    then show ?thesis using IH by simp
  qed
qed

lemma letter_sets_nonneg: "letter_sets_ok K \<Longrightarrow> set cs \<subseteq> K \<Longrightarrow> \<forall>c\<in>set cs. 0 \<le> c"
  by (auto simp: letter_sets_ok_def)

lemma candidates_by_union:
  assumes "letter_sets_ok K" "chain K cs" "cs \<noteq> []"
  shows "candidates K cs = {x \<in> K. disjoint_after (union_of cs) x}"
proof -
  have nn: "\<forall>c\<in>set cs. 0 \<le> c" using assms by (auto simp: chain_def letter_sets_ok_def)
  have "x \<in> K \<Longrightarrow> (\<forall>c\<in>set cs. disjoint_after c x) \<longleftrightarrow> disjoint_after (union_of cs) x" for x
    using union_of_below[OF nn assms(3), of x] assms(1) by (simp add: letter_sets_ok_def)
  then show ?thesis by (auto simp: candidates_def)
qed

lemma chain_append:
  "chain K (cs @ xs) \<longleftrightarrow> chain K cs \<and> chain K xs \<and> set xs \<subseteq> candidates K cs"
  by (auto simp: chain_def sorted_wrt_append candidates_def)

lemma chain_snoc: "chain K (cs @ [x]) \<longleftrightarrow> chain K cs \<and> x \<in> candidates K cs"
  by (auto simp: chain_def sorted_wrt_append candidates_def)

lemma candidates_snoc:
  "candidates K (cs @ [x]) = candidates K cs \<inter> {b \<in> K. disjoint_after x b}"
  by (auto simp: candidates_def)

lemma candidates_single: "candidates K [w] = {b \<in> K. disjoint_after w b}"
  by (auto simp: candidates_def)

lemma card_bits_union_of:
  assumes "letter_sets_ok K" "chain K cs"
  shows "card (bits (union_of cs)) = 5 * length cs"
  using assms(2)
proof (induction cs)
  case Nil
  then show ?case by simp
next
  case (Cons c cs)
  then have ch: "chain K cs" and cK: "c \<in> K" and dis: "\<forall>x\<in>set cs. c AND x = 0"
    by (auto simp: chain_def disjoint_after_def)
  have "bits c \<inter> bits (union_of cs) = {}"
    using dis by (auto simp: bits_union_of and_zero_iff_bits)
  moreover have "finite (bits c)" "card (bits c) = 5"
    using cK assms(1) by (auto simp: letter_sets_ok_def finite_bits)
  moreover have "finite (bits (union_of cs))"
    using ch assms(1) by (intro finite_bits union_of_nonneg) (auto simp: chain_def letter_sets_ok_def)
  ultimately show ?case using Cons.IH[OF ch] by (simp add: bits_OR card_Un_disjoint)
qed

lemma completions_by_union:
  assumes "letter_sets_ok K" "chain K cs" "chain K ds" "cs \<noteq> []" "ds \<noteq> []"
    "union_of cs = union_of ds"
  shows "completions K cs = completions K ds"
proof -
  have "5 * length cs = 5 * length ds"
    using card_bits_union_of[OF assms(1,2)] card_bits_union_of[OF assms(1,3)] assms(6) by simp
  then have len: "length cs = length ds" by simp
  have "candidates K cs = candidates K ds"
    using candidates_by_union[OF assms(1,2,4)] candidates_by_union[OF assms(1,3,5)] assms(6)
    by simp
  then show ?thesis using assms(2,3) len by (auto simp: completions_def chain_append)
qed

lemma ALL_LETTERS_eq: "ALL_LETTERS = mask 26"
  by (simp add: ALL_LETTERS_def ascii_lowercase_def letter_set_def mask_int_def)

lemma bits_NOT: "bits (NOT a) = - bits a"
  by (auto simp: bits_def bit_not_iff)

lemma bits_ALL_LETTERS: "bits ALL_LETTERS = {..<26}"
  by (auto simp: bits_def ALL_LETTERS_eq bit_mask_iff)

lemma bits_below: "0 \<le> c \<Longrightarrow> c < 2 ^ n \<Longrightarrow> bits c \<subseteq> {..<n}"
proof
  fix i assume a: "0 \<le> c" "c < 2 ^ n" "i \<in> bits c"
  then have "(2::int) ^ i \<le> c" by (simp add: bits_def bit_imp_ge)
  with a(2) have "(2::int) ^ i < 2 ^ n" by linarith
  then show "i \<in> {..<n}" by simp
qed

lemma diff_disjoint: "bits w \<subseteq> bits r \<Longrightarrow> r - w = r AND NOT w" for r w :: int
  by (rule disjunctive_diff) (auto simp: bits_def)

lemma untangle_loop_prefix_unions:
  assumes "\<forall>c\<in>set cs. bits c \<subseteq> bits ALL_LETTERS \<and> c AND acc = 0"
    "sorted_wrt (\<lambda>a b. a AND b = 0) cs"
  shows "untangle_loop (ALL_LETTERS AND NOT acc)
           (map (\<lambda>n. acc OR union_of (take n cs)) [1..<Suc (length cs)]) = cs"
  using assms
proof (induction cs arbitrary: acc)
  case Nil
  then show ?case by simp
next
  case (Cons c cs)
  have c: "bits c \<subseteq> bits ALL_LETTERS" "bits c \<inter> bits acc = {}"
    using Cons.prems(1) by (simp_all add: and_zero_iff_bits)
  have upt: "[1..<Suc (length (c # cs))] = 1 # map Suc [1..<Suc (length cs)]"
    by (simp add: upt_conv_Cons map_Suc_upt del: upt_Suc)
  have w: "(acc OR c) AND (ALL_LETTERS AND NOT acc) = c"
    unfolding bits_eq_iff[symmetric] bits_AND bits_OR bits_NOT using c by blast
  have "bits c \<subseteq> bits (ALL_LETTERS AND NOT acc)"
    unfolding bits_AND bits_NOT using c by blast
  then have "(ALL_LETTERS AND NOT acc) - c = (ALL_LETTERS AND NOT acc) AND NOT c"
    by (rule diff_disjoint)
  also have "\<dots> = ALL_LETTERS AND NOT (acc OR c)"
    unfolding bits_eq_iff[symmetric] bits_AND bits_OR bits_NOT by blast
  finally have r: "(ALL_LETTERS AND NOT acc) - c = ALL_LETTERS AND NOT (acc OR c)" .
  have pre: "\<forall>d\<in>set cs. bits d \<subseteq> bits ALL_LETTERS \<and> d AND (acc OR c) = 0"
  proof
    fix d assume d: "d \<in> set cs"
    then have "c AND d = 0" "d AND acc = 0" "bits d \<subseteq> bits ALL_LETTERS"
      using Cons.prems by auto
    then show "bits d \<subseteq> bits ALL_LETTERS \<and> d AND (acc OR c) = 0"
      unfolding and_zero_iff_bits bits_OR by blast
  qed
  have IH: "untangle_loop (ALL_LETTERS AND NOT (acc OR c))
           (map (\<lambda>n. (acc OR c) OR union_of (take n cs)) [1..<Suc (length cs)]) = cs"
    using Cons.IH[OF pre] Cons.prems(2) by simp
  have "map (\<lambda>n. acc OR union_of (take n (c # cs))) [1..<Suc (length (c # cs))]
          = (acc OR c) # map (\<lambda>n. (acc OR c) OR union_of (take n cs)) [1..<Suc (length cs)]"
    unfolding upt by (simp add: o_def or.assoc del: upt_Suc)
  then have "untangle_loop (ALL_LETTERS AND NOT acc)
               (map (\<lambda>n. acc OR union_of (take n (c # cs))) [1..<Suc (length (c # cs))])
             = c # untangle_loop (ALL_LETTERS AND NOT (acc OR c))
                 (map (\<lambda>n. (acc OR c) OR union_of (take n cs)) [1..<Suc (length cs)])"
    by (simp only: untangle_loop.simps Let_def w r)
  then show ?case by (simp only: IH)
qed

lemma running_unions_snoc:
  "running_unions (cs @ [x]) = union_of (cs @ [x]) # running_unions cs"
proof -
  have "map (\<lambda>n. union_of (take n (cs @ [x]))) [1..<Suc (length cs)]
        = map (\<lambda>n. union_of (take n cs)) [1..<Suc (length cs)]"
    by (rule map_cong) auto
  then show ?thesis by (simp add: running_unions_def rev_map)
qed

lemma untangle_running_unions:
  assumes "\<forall>c\<in>set cs. 0 \<le> c \<and> c < 2 ^ 26" "sorted_wrt (\<lambda>a b. a AND b = 0) cs"
  shows "untangle_words (running_unions cs) = cs"
proof -
  have "\<forall>c\<in>set cs. bits c \<subseteq> bits ALL_LETTERS \<and> c AND 0 = 0"
    using assms(1) by (simp add: bits_ALL_LETTERS bits_below)
  from untangle_loop_prefix_unions[OF this assms(2)] show ?thesis
    by (simp add: untangle_words_def running_unions_def rev_map del: upt_Suc)
qed

lemma grows_refl: "sound K (prune st) \<Longrightarrow> grows K st st {}"
  by (simp add: grows_def)

lemma grows_trans:
  assumes "grows K st st1 E1" "grows K st1 st2 E2" "E1 \<inter> E2 = {}"
  shows "grows K st st2 (E1 \<union> E2)"
proof -
  from assms(1) obtain n1 where n1: "cliques st1 = cliques st @ n1" "distinct n1" "set n1 = E1"
    by (auto simp: grows_def)
  from assms(2) obtain n2 where n2: "cliques st2 = cliques st1 @ n2" "distinct n2" "set n2 = E2"
    by (auto simp: grows_def)
  have "cliques st2 = cliques st @ (n1 @ n2)" "distinct (n1 @ n2)" "set (n1 @ n2) = E1 \<union> E2"
    using n1 n2 assms(3) by auto
  then show ?thesis using assms(1,2) unfolding grows_def by blast
qed

lemma grows_prune_update:
  "grows K st st' E \<Longrightarrow> sound K (insert u (prune st')) \<Longrightarrow>
   grows K st (st'\<lparr>prune := insert u (prune st')\<rparr>) E"
  by (auto simp: grows_def)

lemma emitted_insert:
  "emitted K cs (insert x X) = (\<lambda>xs. cs @ x # xs) ` completions K (cs @ [x]) \<union> emitted K cs X"
  by (simp add: emitted_def)

lemma emitted_disjoint:
  "x \<notin> X \<Longrightarrow> (\<lambda>xs. cs @ x # xs) ` completions K (cs @ [x]) \<inter> emitted K cs X = {}"
  by (auto simp: emitted_def)

lemma chain_distinct: "chain K xs \<Longrightarrow> distinct xs"
  by (induction xs) (auto simp: chain_def disjoint_after_def)

lemma completions_full: "length ds = 5 \<Longrightarrow> completions K ds = (if chain K ds then {[]} else {})"
  by (auto simp: completions_def)

lemma completions_step:
  assumes "length cs < 5"
  shows "completions K cs = (\<Union>x\<in>candidates K cs. (#) x ` completions K (cs @ [x]))"
proof (rule set_eqI)
  fix xs
  show "xs \<in> completions K cs \<longleftrightarrow> xs \<in> (\<Union>x\<in>candidates K cs. (#) x ` completions K (cs @ [x]))"
  proof (cases xs)
    case Nil
    then show ?thesis using assms by (auto simp: completions_def)
  next
    case (Cons x ys)
    have "chain K (cs @ x # ys) \<longleftrightarrow> x \<in> candidates K cs \<and> chain K ((cs @ [x]) @ ys)"
      using chain_append[of K "cs @ [x]" ys] chain_snoc[of K cs x] chain_append[of K cs "x # ys"]
      by auto
    then show ?thesis using Cons by (auto simp: completions_def)
  qed
qed

lemma emitted_all:
  "length cs < 5 \<Longrightarrow> emitted K cs (candidates K cs) = (@) cs ` completions K cs"
  by (auto simp: emitted_def completions_step[of cs K])

lemma completions_bound:
  assumes "finite K" "completions K cs \<noteq> {}"
  shows "5 \<le> card (candidates K cs) + length cs"
proof -
  from assms(2) obtain xs where xs: "chain K (cs @ xs)" "length (cs @ xs) = 5"
    by (auto simp: completions_def)
  then have "set xs \<subseteq> candidates K cs" "distinct xs"
    using chain_distinct[of K xs] by (auto simp: chain_append)
  moreover have "finite (candidates K cs)" using assms(1) by (simp add: candidates_def)
  ultimately have "length xs \<le> card (candidates K cs)"
    by (metis card_mono distinct_card)
  then show ?thesis using xs(2) by simp
qed

lemma running_unions_nonempty:
  "cs \<noteq> [] \<Longrightarrow> running_unions cs = union_of cs # tl (running_unions cs)"
  by (cases cs rule: rev_cases) (simp_all add: running_unions_snoc)

lemma length_running_unions [simp]: "length (running_unions cs) = length cs"
  by (simp add: running_unions_def del: upt_Suc)

lemma merge_loop_correct:
  assumes S: "setting K graph ord" and ch: "chain K cs" and ne: "cs \<noteq> []"
    and IH: "\<And>x st. x \<in> candidates K cs \<Longrightarrow> sound K (prune st) \<Longrightarrow>
        merge_post K (cs @ [x]) st
          (merge n ord (union_of (cs @ [x])) (running_unions cs) (candidates K (cs @ [x])) graph st)"
    and rest: "set rest \<subseteq> candidates K cs" "distinct rest" and snd: "sound K (prune st)"
  shows "loop_post K cs rest r st
           (merge_loop n ord (union_of cs) (tl (running_unions cs)) (candidates K cs) graph rest r st)"
  using rest snd
proof (induction rest arbitrary: r st)
  case Nil
  then show ?case by (simp add: loop_post_def emitted_def grows_refl)
next
  case (Cons x rest)
  let ?L = "\<lambda>r st. merge_loop n ord (union_of cs) (tl (running_unions cs)) (candidates K cs)
                       graph rest r st"
  let ?E = "(\<lambda>xs. cs @ x # xs) ` completions K (cs @ [x])"
  have x: "x \<in> candidates K cs" "x \<notin> set rest" and rest': "set rest \<subseteq> candidates K cs" "distinct rest"
    using Cons.prems by auto
  have xK: "x \<in> K" using x(1) by (simp add: candidates_def)
  have dis: "union_of cs AND x = 0"
    using x(1) by (simp add: candidates_def union_of_and_zero_iff disjoint_after_def)
  have chx: "chain K (cs @ [x])" using ch x(1) by (simp add: chain_snoc)
  have g: "map_of graph x = Some {b \<in> K. disjoint_after x b}"
    using S xK by (simp add: setting_def graph_of_def)
  have path: "union_of cs # tl (running_unions cs) = running_unions cs"
    using running_unions_nonempty[OF ne] by simp
  have cand: "candidates K cs \<inter> {b \<in> K. disjoint_after x b} = candidates K (cs @ [x])"
    by (simp add: candidates_snoc)
  have E: "emitted K cs (set (x # rest)) = ?E \<union> emitted K cs (set rest)"
    by (simp add: emitted_insert)
  have Edis: "?E \<inter> emitted K cs (set rest) = {}"
    using x(2) by (rule emitted_disjoint)
  show ?case
  proof (cases "union_of (cs @ [x]) \<in> prune st")
    case True
    then have "completions K (cs @ [x]) = {}"
      using Cons.prems(3) chx unfolding sound_def by blast
    then have E0: "emitted K cs (set (x # rest)) = emitted K cs (set rest)" using E by simp
    have step: "merge_loop n ord (union_of cs) (tl (running_unions cs)) (candidates K cs)
                  graph (x # rest) r st = ?L r st"
      using True dis by (simp add: union_of_snoc)
    show ?thesis
      unfolding step using Cons.IH[OF rest' Cons.prems(3), of r] by (simp only: loop_post_def E0)
  next
    case False
    from IH[OF x(1) Cons.prems(3)] obtain b st1 where
      m: "merge n ord (union_of (cs @ [x])) (running_unions cs) (candidates K (cs @ [x])) graph st
            = Inr (b, st1)"
      and b: "b \<longleftrightarrow> completions K (cs @ [x]) \<noteq> {}"
      and g1: "grows K st st1 ((@) (cs @ [x]) ` completions K (cs @ [x]))"
      unfolding merge_post_def by blast
    have g1': "grows K st st1 ?E"
    proof -
      have "(@) (cs @ [x]) ` completions K (cs @ [x]) = ?E" by auto
      then show ?thesis using g1 by simp
    qed
    show ?thesis
    proof (cases b)
      case True
      have step: "merge_loop n ord (union_of cs) (tl (running_unions cs)) (candidates K cs)
                  graph (x # rest) r st = ?L True st1"
        using False dis g m True by (simp add: union_of_snoc path cand)
      have s1: "sound K (prune st1)" using g1 by (simp add: grows_def)
      from Cons.IH[OF rest' s1, of True] obtain r' st' where
        l: "?L True st1 = Inr (r', st')" "r'" "grows K st1 st' (emitted K cs (set rest))"
        unfolding loop_post_def by blast
      have "grows K st st' (emitted K cs (set (x # rest)))"
        unfolding E using g1' l(3) Edis by (rule grows_trans)
      moreover have "emitted K cs (set (x # rest)) \<noteq> {}" using True b E by simp
      ultimately show ?thesis unfolding step loop_post_def using l(1,2) by blast
    next
      case F: False
      let ?st = "st1\<lparr>prune := insert (union_of (cs @ [x])) (prune st1)\<rparr>"
      have step: "merge_loop n ord (union_of cs) (tl (running_unions cs)) (candidates K cs)
                  graph (x # rest) r st = ?L r ?st"
        using False dis g m F by (simp add: union_of_snoc path cand)
      have empty: "completions K (cs @ [x]) = {}" using F b by simp
      have s1: "sound K (prune st1)" using g1 by (simp add: grows_def)
      have s2: "sound K (insert (union_of (cs @ [x])) (prune st1))"
        unfolding sound_def
      proof (intro allI impI)
        fix ds assume ds: "chain K ds \<and> ds \<noteq> [] \<and> union_of ds \<in> insert (union_of (cs @ [x])) (prune st1)"
        show "completions K ds = {}"
        proof (cases "union_of ds = union_of (cs @ [x])")
          case True
          have "completions K ds = completions K (cs @ [x])"
            using S ds chx True by (intro completions_by_union) (simp_all add: setting_def)
          then show ?thesis using empty by simp
        next
          case False
          then show ?thesis using ds s1 unfolding sound_def by blast
        qed
      qed
      have g2: "grows K st ?st ?E" using g1' s2 by (rule grows_prune_update)
      have s2': "sound K (prune ?st)" using s2 by simp
      from Cons.IH[OF rest' s2', of r] obtain r' st' where
        l: "?L r ?st = Inr (r', st')" "r' \<longleftrightarrow> r \<or> emitted K cs (set rest) \<noteq> {}"
           "grows K ?st st' (emitted K cs (set rest))"
        unfolding loop_post_def by blast
      have "grows K st st' (emitted K cs (set (x # rest)))"
        unfolding E using g2 l(3) Edis by (rule grows_trans)
      moreover have "emitted K cs (set (x # rest)) = emitted K cs (set rest)"
        using empty E by simp
      ultimately show ?thesis unfolding step loop_post_def using l(1,2) by auto
    qed
  qed
qed

lemma untangle_chain:
  assumes "letter_sets_ok K" "chain K cs"
  shows "untangle_words (running_unions cs) = cs"
proof (rule untangle_running_unions)
  show "\<forall>c\<in>set cs. 0 \<le> c \<and> c < 2 ^ 26"
    using assms by (auto simp: letter_sets_ok_def chain_def)
  show "sorted_wrt (\<lambda>a b. a AND b = 0) cs"
    using assms(2) unfolding chain_def
    by (auto intro: sorted_wrt_mono_rel[of cs disjoint_after] simp: disjoint_after_def)
qed

lemma merge_correct:
  assumes S: "setting K graph ord"
  shows "chain K cs \<Longrightarrow> cs \<noteq> [] \<Longrightarrow> length cs \<le> 4 \<Longrightarrow> 5 \<le> n + length cs \<Longrightarrow>
         sound K (prune st) \<Longrightarrow>
         merge_post K cs st
           (merge n ord (union_of cs) (tl (running_unions cs)) (candidates K cs) graph st)"
proof (induction n arbitrary: cs st)
  case 0
  then show ?case by simp
next
  case (Suc n)
  note ch = Suc.prems(1) and ne = Suc.prems(2) and snd = Suc.prems(5)
  have K: "letter_sets_ok K" "finite K" and vo: "valid_order ord"
    using S by (simp_all add: setting_def letter_sets_ok_def)
  have fin: "finite (candidates K cs)" using K(2) by (simp add: candidates_def)
  have len: "Suc (length cs - Suc 0) = length cs" using ne by (cases cs) simp_all
  have path: "union_of cs # tl (running_unions cs) = running_unions cs"
    using running_unions_nonempty[OF ne] by simp
  let ?os = "ord (running_unions cs) (candidates K cs)"
  have os: "set ?os = candidates K cs" "distinct ?os"
    using vo fin by (simp_all add: valid_order_def)
  have sub: "set ?os \<subseteq> candidates K cs" using os(1) by simp
  show ?case
  proof (cases "card (candidates K cs) + length cs < 5")
    case True
    then have empty: "completions K cs = {}" using completions_bound[OF K(2), of cs] by fastforce
    have m: "merge (Suc n) ord (union_of cs) (tl (running_unions cs)) (candidates K cs) graph st
                   = Inr (False, st)"
      using True len by (simp add: TOTAL_LENGTH_def)
    show ?thesis unfolding m merge_post_def using empty snd by (auto simp: grows_refl)
  next
    case nb: False
    show ?thesis
    proof (cases "length cs = 4")
      case True
      have emit: "untangle_words ((x OR union_of cs) # union_of cs # tl (running_unions cs)) = cs @ [x]"
        if "x \<in> candidates K cs" for x
      proof -
        have "chain K (cs @ [x])" using ch that by (simp add: chain_snoc)
        from untangle_chain[OF K(1) this] show ?thesis
          by (simp add: running_unions_snoc union_of_snoc path or.commute)
      qed
      let ?new = "map (\<lambda>x. cs @ [x]) ?os"
      have m: "merge (Suc n) ord (union_of cs) (tl (running_unions cs)) (candidates K cs) graph st
                   = Inr (True, st\<lparr>cliques := cliques st @ ?new\<rparr>)"
        using nb len True emit os(1)
        by (simp add: TOTAL_LENGTH_def TOTAL_LENGTH_MINUS_ONE_def path cong: map_cong)
      have comp: "completions K cs = (\<lambda>x. [x]) ` candidates K cs"
        using True chain_snoc[of K cs] ch
        by (auto simp: completions_step[of cs K] completions_full)
      have "candidates K cs \<noteq> {}" using nb True by auto
      then have nonempty: "completions K cs \<noteq> {}" using comp by simp
      have "distinct ?new" using os(2) by (simp add: distinct_map inj_on_def)
      moreover have "set ?new = (@) cs ` completions K cs" using os(1) comp by auto
      ultimately have "grows K st (st\<lparr>cliques := cliques st @ ?new\<rparr>) ((@) cs ` completions K cs)"
        using snd by (simp add: grows_def)
      then show ?thesis unfolding m merge_post_def using nonempty by auto
    next
      case False
      then have lt: "length cs < 4" using Suc.prems(3) by simp
      have m: "merge (Suc n) ord (union_of cs) (tl (running_unions cs)) (candidates K cs) graph st
                = merge_loop n ord (union_of cs) (tl (running_unions cs)) (candidates K cs) graph
                    ?os False st"
        using nb len False
        by (simp add: TOTAL_LENGTH_def TOTAL_LENGTH_MINUS_ONE_def path)
      have IH: "merge_post K (cs @ [x]) st'
          (merge n ord (union_of (cs @ [x])) (running_unions cs) (candidates K (cs @ [x])) graph st')"
        if "x \<in> candidates K cs" "sound K (prune st')" for x st'
      proof -
        have "chain K (cs @ [x])" using ch that(1) by (simp add: chain_snoc)
        from Suc.IH[OF this _ _ _ that(2)] lt Suc.prems(4) show ?thesis
          by (simp add: running_unions_snoc)
      qed
      have "loop_post K cs ?os False st
              (merge_loop n ord (union_of cs) (tl (running_unions cs)) (candidates K cs) graph
                 ?os False st)"
        using S ch ne IH sub os(2) snd by (rule merge_loop_correct)
      then show ?thesis
        unfolding m loop_post_def merge_post_def os(1) using lt
        by (auto simp: emitted_all)
    qed
  qed
qed

lemma neighbors_of_fold:
  "fold (\<lambda>other_set neighbors.
           if c AND other_set = 0 then insert other_set neighbors else neighbors) others S
   = S \<union> {b \<in> set others. c AND b = 0}"
  by (induction others arbitrary: S) auto

lemma neighbors_of_eq: "neighbors_of c others = {b \<in> set others. c AND b = 0}"
  by (simp add: neighbors_of_def neighbors_of_fold)

lemma graph_rows_Cons:
  "map (\<lambda>i. ((k # ks) ! i, F ((k # ks) ! i) (drop (i + 1) (k # ks)))) [0..<length (k # ks)]
   = (k, F k ks) # map (\<lambda>i. (ks ! i, F (ks ! i) (drop (i + 1) ks))) [0..<length ks]"
proof -
  have "[0..<length (k # ks)] = 0 # map Suc [0..<length ks]"
    by (simp add: upt_conv_Cons map_Suc_upt del: upt_Suc)
  then show ?thesis by (simp add: o_def del: upt_Suc)
qed

lemma map_of_graph_rows:
  assumes "sorted_wrt (<) ks"
  shows "map_of (map (\<lambda>i. (ks ! i, neighbors_of (ks ! i) (drop (i + 1) ks))) [0..<length ks]) a
         = (if a \<in> set ks then Some {b \<in> set ks. disjoint_after a b} else None)"
  using assms
proof (induction ks)
  case Nil
  then show ?case by simp
next
  case (Cons k ks)
  have lt: "\<forall>b\<in>set ks. k < b" and srt: "sorted_wrt (<) ks" using Cons.prems by simp_all
  show ?case
  proof (cases "a = k")
    case True
    have "{b \<in> set ks. k AND b = 0} = {b \<in> set (k # ks). disjoint_after k b}"
      using lt by (auto simp: disjoint_after_def)
    then show ?thesis
      unfolding graph_rows_Cons using True by (simp add: neighbors_of_eq)
  next
    case False
    have "a \<in> set ks \<Longrightarrow> {b \<in> set ks. disjoint_after a b} = {b \<in> set (k # ks). disjoint_after a b}"
      using lt by (auto simp: disjoint_after_def)
    then show ?thesis
      unfolding graph_rows_Cons using False Cons.IH[OF srt] by simp
  qed
qed

lemma map_of_neighbor_graph:
  assumes "distinct (map fst anagrams)"
  shows "map_of (neighbor_graph anagrams) a
         = (if a \<in> fst ` set anagrams then Some {b \<in> fst ` set anagrams. disjoint_after a b}
            else None)"
proof -
  have "sorted_wrt (<) (sort (map fst anagrams))"
    using assms by (simp add: strict_sorted_iff)
  from map_of_graph_rows[OF this, of a] show ?thesis
    by (simp add: neighbor_graph_def Let_def)
qed

lemma graph_of_neighbor_graph:
  "distinct (map fst anagrams) \<Longrightarrow> graph_of (fst ` set anagrams) (neighbor_graph anagrams)"
  by (simp add: graph_of_def map_of_neighbor_graph)

lemma completions_single:
  "w \<in> K \<Longrightarrow> (@) [w] ` completions K [w] = {xs \<in> quintets K. hd xs = w}"
proof (rule set_eqI)
  fix xs
  assume w: "w \<in> K"
  show "xs \<in> (@) [w] ` completions K [w] \<longleftrightarrow> xs \<in> {xs \<in> quintets K. hd xs = w}"
  proof (cases xs)
    case Nil
    then show ?thesis by (auto simp: quintets_def completions_def)
  next
    case (Cons x ys)
    then show ?thesis by (auto simp: quintets_def completions_def)
  qed
qed

lemma find_cliques_correct:
  assumes S: "setting K graph ord" and n: "4 \<le> n"
  shows "set ks \<subseteq> K \<Longrightarrow> distinct ks \<Longrightarrow> sound K (prune st) \<Longrightarrow>
         \<exists>st'. find_cliques n ord graph ks st = Inr st'
               \<and> grows K st st' {xs \<in> quintets K. hd xs \<in> set ks}"
proof (induction ks arbitrary: st)
  case Nil
  then show ?case by (simp add: grows_refl)
next
  case (Cons w ks)
  have w: "w \<in> K" "w \<notin> set ks" and ks: "set ks \<subseteq> K" "distinct ks" using Cons.prems by auto
  have g: "map_of graph w = Some (candidates K [w])"
    using S w(1) by (simp add: setting_def graph_of_def candidates_single)
  have "chain K [w]" using w(1) by (simp add: chain_def)
  from merge_correct[OF S this _ _ _ Cons.prems(3), of n] n
  have "merge_post K [w] st (merge n ord w [] (candidates K [w]) graph st)"
    by (simp add: running_unions_def)
  then obtain b st1 where
    m: "merge n ord w [] (candidates K [w]) graph st = Inr (b, st1)"
    and g0: "grows K st st1 ((@) [w] ` completions K [w])"
    unfolding merge_post_def by blast
  have g1: "grows K st st1 {xs \<in> quintets K. hd xs = w}"
    using g0 unfolding completions_single[OF w(1)] .
  have s1: "sound K (prune st1)" using g1 by (simp add: grows_def)
  from Cons.IH[OF ks s1] obtain st' where
    f: "find_cliques n ord graph ks st1 = Inr st'"
    and g2: "grows K st1 st' {xs \<in> quintets K. hd xs \<in> set ks}" by blast
  have "{xs \<in> quintets K. hd xs = w} \<inter> {xs \<in> quintets K. hd xs \<in> set ks} = {}"
    using w(2) by auto
  from grows_trans[OF g1 g2 this]
  have "grows K st st' {xs \<in> quintets K. hd xs \<in> set (w # ks)}"
    by (rule back_subst[where P="grows K st st'"]) auto
  moreover have "find_cliques n ord graph (w # ks) st = Inr st'"
    using g m f by simp
  ultimately show ?case by blast
qed

lemma quintet_hd: "xs \<in> quintets K \<Longrightarrow> hd xs \<in> K"
  by (cases xs) (auto simp: quintets_def chain_def)

lemma valid_sorted_set_order: "valid_order sorted_set_order"
  by (simp add: valid_order_def sorted_set_order_def)

lemma letter_sets_ok_index:
  "anagram_index_ok anagrams \<Longrightarrow> letter_sets_ok (fst ` set anagrams)"
  unfolding anagram_index_ok_def letter_sets_ok_def
  using bit_count_correct by fastforce

lemma setting_index:
  "anagram_index_ok anagrams \<Longrightarrow> valid_order ord \<Longrightarrow>
   setting (fst ` set anagrams) (neighbor_graph anagrams) ord"
  by (simp add: setting_def letter_sets_ok_index graph_of_neighbor_graph anagram_index_ok_def)

lemma sorted_wrt_either:
  "sorted_wrt P xs \<Longrightarrow> a \<in> set xs \<Longrightarrow> b \<in> set xs \<Longrightarrow> a \<noteq> b \<Longrightarrow> P a b \<or> P b a"
  by (induction xs) auto

lemma quintets_as_sets:
  assumes "finite K"
  shows "quintets K = {sorted_list_of_set Q | Q. Q \<subseteq> K \<and> card Q = 5 \<and> letter_disjoint Q}"
proof (intro set_eqI iffI)
  fix xs assume "xs \<in> quintets K"
  then have ch: "set xs \<subseteq> K" "sorted_wrt disjoint_after xs" "length xs = 5"
    by (auto simp: quintets_def chain_def)
  have lt: "sorted_wrt (<) xs"
    using ch(2) by (auto intro: sorted_wrt_mono_rel[of xs disjoint_after] simp: disjoint_after_def)
  then have sd: "sorted xs" "distinct xs" by (simp_all add: strict_sorted_iff)
  have "sorted_list_of_set (set xs) = xs"
    using sd by (simp add: sorted_list_of_set.idem_if_sorted_distinct)
  moreover have "card (set xs) = 5" using sd(2) ch(3) by (simp add: distinct_card)
  moreover have "letter_disjoint (set xs)"
    unfolding letter_disjoint_def
  proof (intro ballI impI)
    fix a b assume "a \<in> set xs" "b \<in> set xs" "a \<noteq> b"
    from sorted_wrt_either[OF ch(2) this] show "a AND b = 0"
      by (auto simp: disjoint_after_def and.commute)
  qed
  ultimately show "xs \<in> {sorted_list_of_set Q | Q. Q \<subseteq> K \<and> card Q = 5 \<and> letter_disjoint Q}"
    using ch(1) by (intro CollectI exI[of _ "set xs"]) simp
next
  fix xs assume "xs \<in> {sorted_list_of_set Q | Q. Q \<subseteq> K \<and> card Q = 5 \<and> letter_disjoint Q}"
  then obtain Q where Q: "xs = sorted_list_of_set Q" "Q \<subseteq> K" "card Q = 5" "letter_disjoint Q"
    by blast
  have fin: "finite Q" using Q(2) assms by (rule finite_subset)
  have s: "set xs = Q" "sorted_wrt (<) xs" "length xs = 5"
    using fin Q(1,3) by (simp_all add: strict_sorted_iff)
  have "sorted_wrt disjoint_after xs"
    using s(2)
  proof (rule sorted_wrt_mono_rel[rotated])
    fix a b assume "a \<in> set xs" "b \<in> set xs" "a < b"
    then show "disjoint_after a b"
      using Q(4) s(1) by (auto simp: letter_disjoint_def disjoint_after_def)
  qed
  then show "xs \<in> quintets K" using s Q(2) by (simp add: quintets_def chain_def)
qed

lemma search_correct:
  assumes "anagram_index_ok anagrams" "valid_order ord" "4 \<le> fuel"
    "mset ks = mset (map fst anagrams)"
  shows "\<exists>st. find_cliques fuel ord (neighbor_graph anagrams) ks \<lparr>prune = {}, cliques = []\<rparr> = Inr st
           \<and> distinct (cliques st) \<and> set (cliques st) = quintets (fst ` set anagrams)"
proof -
  let ?K = "fst ` set anagrams"
  have ks: "set ks = ?K" "distinct ks"
    using assms(1,4) mset_eq_setD[OF assms(4)] mset_eq_imp_distinct_iff[OF assms(4)]
    by (simp_all add: anagram_index_ok_def)
  have "sound ?K (prune \<lparr>prune = {}, cliques = []\<rparr>)" by (simp add: sound_def)
  from find_cliques_correct[OF setting_index[OF assms(1,2)] assms(3) _ ks(2) this] ks(1)
  obtain st where st: "find_cliques fuel ord (neighbor_graph anagrams) ks \<lparr>prune = {}, cliques = []\<rparr> = Inr st"
    "grows ?K \<lparr>prune = {}, cliques = []\<rparr> st {xs \<in> quintets ?K. hd xs \<in> ?K}"
    by auto
  have "{xs \<in> quintets ?K. hd xs \<in> ?K} = quintets ?K" using quintet_hd by blast
  then show ?thesis using st by (auto simp: grows_def)
qed

section \<open>The search returns\<close>

lemma merge_loop_returns:
  assumes G: "graph_of K graph"
    and IH: "\<And>lw ws nb st. nb \<subseteq> K \<Longrightarrow> length ws = Suc (length words) \<Longrightarrow>
                \<exists>b st'. merge n ord lw ws nb graph st = Inr (b, st')"
  shows "set rest \<subseteq> K \<Longrightarrow>
         \<exists>b st'. merge_loop n ord last_word words neighbors graph rest r st = Inr (b, st')"
proof (induction rest arbitrary: r st)
  case Nil
  then show ?case by simp
next
  case (Cons x rest)
  then have xK: "x \<in> K" and rest: "set rest \<subseteq> K" by simp_all
  have g: "map_of graph x = Some {b \<in> K. disjoint_after x b}"
    using G xK by (simp add: graph_of_def)
  have "neighbors \<inter> {b \<in> K. disjoint_after x b} \<subseteq> K" by blast
  from IH[OF this, of "last_word # words" "last_word OR x" st] obtain b st1 where
    m: "merge n ord (last_word OR x) (last_word # words)
          (neighbors \<inter> {b \<in> K. disjoint_after x b}) graph st = Inr (b, st1)" by auto
  show ?case
    using Cons.IH[OF rest, of r st] Cons.IH[OF rest, of True st1]
      Cons.IH[OF rest, of r "st1\<lparr>prune := insert (last_word OR x) (prune st1)\<rparr>"] g m
    by (cases b) (auto simp: Let_def)
qed

lemma merge_returns:
  assumes G: "graph_of K graph" and vo: "valid_order ord" and fin: "finite K"
  shows "neighbors \<subseteq> K \<Longrightarrow> length words \<le> 3 \<Longrightarrow> 4 \<le> n + length words \<Longrightarrow>
         \<exists>b st'. merge n ord last_word words neighbors graph st = Inr (b, st')"
proof (induction n arbitrary: last_word words neighbors st)
  case 0
  then show ?case by simp
next
  case (Suc n)
  have finn: "finite neighbors" using Suc.prems(1) fin by (rule finite_subset)
  have os: "set (ord (last_word # words) neighbors) \<subseteq> K"
    using vo finn Suc.prems(1) by (simp add: valid_order_def)
  show ?case
  proof (cases "card neighbors + (length words + 1) < 5 \<or> length words + 1 = 4")
    case True
    then show ?thesis by (auto simp: TOTAL_LENGTH_def TOTAL_LENGTH_MINUS_ONE_def)
  next
    case False
    then have lt: "length words < 3" using Suc.prems(2) by simp
    have IH: "\<exists>b st'. merge n ord lw ws nb graph st = Inr (b, st')"
      if "nb \<subseteq> K" "length ws = Suc (length words)" for lw ws nb st
      using Suc.IH[OF that(1), of ws lw st] that(2) lt Suc.prems(3) by simp
    have "\<exists>b st'. merge_loop n ord last_word words neighbors graph
              (ord (last_word # words) neighbors) False st = Inr (b, st')"
      using G IH os by (rule merge_loop_returns)
    then show ?thesis using False by (simp add: TOTAL_LENGTH_def TOTAL_LENGTH_MINUS_ONE_def)
  qed
qed

lemma find_cliques_returns:
  assumes G: "graph_of K graph" and vo: "valid_order ord" and fin: "finite K" and n: "4 \<le> n"
  shows "set ks \<subseteq> K \<Longrightarrow> \<exists>st'. find_cliques n ord graph ks st = Inr st'"
proof (induction ks arbitrary: st)
  case Nil
  then show ?case by simp
next
  case (Cons w ks)
  then have w: "w \<in> K" and ks: "set ks \<subseteq> K" by simp_all
  have g: "map_of graph w = Some {b \<in> K. disjoint_after w b}"
    using G w by (simp add: graph_of_def)
  have "{b \<in> K. disjoint_after w b} \<subseteq> K" by blast
  from merge_returns[OF G vo fin this, of "[]" n w st] n obtain b st1 where
    "merge n ord w [] {b \<in> K. disjoint_after w b} graph st = Inr (b, st1)" by auto
  then show ?case using g Cons.IH[OF ks, of st1] by simp
qed

section \<open>The anagram index\<close>

lemma letter_set_loop_nonneg:
  "letter_set_loop ret word = Inr r \<Longrightarrow> 0 \<le> ret \<Longrightarrow> 0 \<le> r"
  by (induction word arbitrary: ret) (auto simp: Let_def split: if_splits)

lemma letter_set_nonneg: "letter_set word = Inr r \<Longrightarrow> 0 \<le> r"
  unfolding letter_set_def by (erule letter_set_loop_nonneg) simp

lemma letter_set_loop_error:
  "letter_set_loop ret word = Inl e \<Longrightarrow> e = ValueError \<and> (\<exists>c\<in>set word. c < CHR ''a'')"
proof (induction word arbitrary: ret)
  case Nil
  then show ?case by simp
next
  case (Cons c word)
  show ?case
  proof (cases "(of_char c :: int) - 97 < 0")
    case True
    then have "(of_char c :: int) < of_char CHR ''a''" by simp
    then have "int (of_char c) < int (of_char CHR ''a'')" by (simp only: of_nat_of_char)
    then have "c < CHR ''a''" by (simp add: less_char_def)
    then show ?thesis using Cons.prems True by (simp add: Let_def)
  next
    case False
    then show ?thesis using Cons by (auto simp: Let_def)
  qed
qed

lemma letter_set_error:
  "letter_set word = Inl e \<Longrightarrow> e = ValueError \<and> (\<exists>c\<in>set word. c < CHR ''a'')"
  unfolding letter_set_def by (rule letter_set_loop_error)

lemma map_of_append_word:
  "map_of (append_word k w anagrams) k' =
     (if k' = k then Some (lookup anagrams k @ [w]) else map_of anagrams k')"
  by (induction anagrams) (auto simp: lookup_def)

lemma keys_append_word:
  "fst ` set (append_word k w anagrams) = insert k (fst ` set anagrams)"
  by (induction k w anagrams rule: append_word.induct) (simp_all add: insert_commute)

lemma distinct_append_word:
  "distinct (map fst anagrams) \<Longrightarrow> distinct (map fst (append_word k w anagrams))"
proof (induction anagrams)
  case Nil
  then show ?case by simp
next
  case (Cons p anagrams)
  obtain k' ws where p: "p = (k', ws)" by (cases p)
  have "fst ` set (append_word k w anagrams) = insert k (fst ` set anagrams)"
    by (rule keys_append_word)
  then show ?case using Cons p by auto
qed

lemma lookup_append_word:
  "lookup (append_word k w anagrams) k' =
     (if k' = k then lookup anagrams k @ [w] else lookup anagrams k')"
  by (simp add: lookup_def map_of_append_word)

lemma word_class_Cons:
  "word_class k (w # ws) =
     (if length w = 5 \<and> letter_set w = Inr k \<and> bit_count k = Some 5 then w # word_class k ws
      else word_class k ws)"
  by (simp add: word_class_def)

lemma read_words_loop_result:
  assumes "read_words_loop anagrams f = Inr anagrams'"
    "distinct (map fst anagrams)" "\<forall>k. map_of anagrams k \<noteq> Some []"
  shows "distinct (map fst anagrams') \<and> (\<forall>k. map_of anagrams' k \<noteq> Some [])
         \<and> (\<forall>k. lookup anagrams' k = lookup anagrams k @ word_class k (map strip f))"
  using assms
proof (induction f arbitrary: anagrams)
  case Nil
  then show ?case by (simp add: word_class_def)
next
  case (Cons line f)
  let ?w = "strip line"
  show ?case
  proof (cases "length ?w = 5")
    case False
    then have "read_words_loop anagrams f = Inr anagrams'" using Cons.prems(1) by simp
    from Cons.IH[OF this Cons.prems(2,3)] show ?thesis
      using False by (simp add: word_class_Cons)
  next
    case True
    then obtain cs where cs: "letter_set ?w = Inr cs"
      using Cons.prems(1) by (cases "letter_set ?w") auto
    then have "0 \<le> cs" by (rule letter_set_nonneg)
    then have bc: "bit_count cs = Some (card (bits cs))" by (rule bit_count_correct)
    show ?thesis
    proof (cases "card (bits cs) = 5")
      case F: False
      then have "read_words_loop anagrams f = Inr anagrams'"
        using Cons.prems(1) True cs bc by simp
      from Cons.IH[OF this Cons.prems(2,3)] show ?thesis
        using True cs bc F by (auto simp: word_class_Cons)
    next
      case T: True
      let ?a = "append_word cs ?w anagrams"
      have r: "read_words_loop ?a f = Inr anagrams'"
        using Cons.prems(1) True cs bc T by simp
      have d: "distinct (map fst ?a)" using Cons.prems(2) by (rule distinct_append_word)
      have ne: "\<forall>k. map_of ?a k \<noteq> Some []"
        using Cons.prems(3) by (simp add: map_of_append_word)
      from Cons.IH[OF r d ne] show ?thesis
        using True cs bc T by (auto simp: word_class_Cons lookup_append_word)
    qed
  qed
qed

lemma read_words_loop_error:
  "read_words_loop anagrams f = Inl e \<Longrightarrow>
     e = ValueError \<and> (\<exists>line\<in>set f. length (strip line) = 5 \<and> (\<exists>c\<in>set (strip line). c < CHR ''a''))"
proof (induction f arbitrary: anagrams)
  case Nil
  then show ?case by simp
next
  case (Cons line f)
  let ?w = "strip line"
  show ?case
  proof (cases "length ?w = 5")
    case False
    then show ?thesis using Cons by simp
  next
    case True
    show ?thesis
    proof (cases "letter_set ?w")
      case (Inl e')
      then have "e' = e" using Cons.prems True by simp
      then show ?thesis using letter_set_error[OF Inl] True by auto
    next
      case (Inr cs)
      then have "0 \<le> cs" by (rule letter_set_nonneg)
      then have bc: "bit_count cs = Some (card (bits cs))" by (rule bit_count_correct)
      show ?thesis
        using Cons.prems True Inr bc Cons.IH[of anagrams] Cons.IH[of "append_word cs ?w anagrams"]
        by (auto split: if_splits)
    qed
  qed
qed

lemma map_of_by_lookup:
  "map_of anagrams k \<noteq> Some [] \<Longrightarrow>
   map_of anagrams k = (if lookup anagrams k = [] then None else Some (lookup anagrams k))"
  by (cases "map_of anagrams k") (auto simp: lookup_def)

section \<open>Expansion into word tuples\<close>

lemma lookup_all_keys:
  "set cliq \<subseteq> fst ` set anagrams \<Longrightarrow> lookup_all anagrams cliq = Inr (map (lookup anagrams) cliq)"
proof (induction cliq)
  case Nil
  then show ?case by simp
next
  case (Cons k cliq)
  then have "map_of anagrams k \<noteq> None" by (simp add: map_of_eq_None_iff)
  then obtain ws where "map_of anagrams k = Some ws" by blast
  then show ?case using Cons by (simp add: lookup_def)
qed

lemma sorted_tuples_keys:
  "\<forall>c\<in>set cl. set c \<subseteq> fst ` set anagrams \<Longrightarrow>
   sorted_tuples anagrams cl = Inr (concat (map (tuples_of anagrams) cl))"
  by (induction cl) (simp_all add: expand_def lookup_all_keys tuples_of_def)

lemma mset_concat_map:
  "mset (concat (map T cl)) = sum_mset (image_mset (\<lambda>c. mset (T c)) (mset cl))"
  by (induction cl) simp_all

lemma sort_cong_mset: "mset xs = mset ys \<Longrightarrow> sort xs = sort ys"
  by (rule properties_for_sort) simp_all

lemma same_keys_same_list:
  assumes "map f xs = map f ys" "distinct (map f xs)" "mset xs = mset ys"
  shows "xs = ys"
proof (rule nth_equalityI)
  show len: "length xs = length ys" using assms(1) by (rule map_eq_imp_length_eq)
  fix i assume i: "i < length xs"
  then have "xs ! i \<in> set ys" using assms(3) by (metis mset_eq_setD nth_mem)
  then obtain j where j: "j < length ys" "ys ! j = xs ! i" by (auto simp: in_set_conv_nth)
  have "map f xs ! j = map f ys ! j" using assms(1) by simp
  then have "f (xs ! j) = f (xs ! i)" using j len by simp
  then have eq: "map f xs ! j = map f xs ! i" using i j len by simp
  have jl: "j < length (map f xs)" "i < length (map f xs)" using i j len by simp_all
  from nth_eq_iff_index_eq[OF assms(2) jl] eq have "j = i" by blast
  then show "xs ! i = ys ! i" using j by simp
qed

lemma product_keys:
  assumes "classes_ok anagrams" "t \<in> set (product_lists (map (lookup anagrams) c))"
  shows "map key_of t = c"
proof -
  have l: "list_all2 (\<lambda>w ws. w \<in> set ws) t (map (lookup anagrams) c)"
    using assms(2) by (simp add: product_lists_set)
  then have len: "length t = length c" by (auto dest: list_all2_lengthD)
  show ?thesis
  proof (rule nth_equalityI)
    show "length (map key_of t) = length c" using len by simp
    fix i assume "i < length (map key_of t)"
    then have i: "i < length t" by simp
    then have "t ! i \<in> set (lookup anagrams (c ! i))"
      using l len by (auto simp: list_all2_conv_all_nth)
    then have "letter_set (t ! i) = Inr (c ! i)" using assms(1) by (auto simp: classes_ok_def)
    then show "map key_of t ! i = c ! i" using i by (simp add: key_of_def)
  qed
qed

lemma distinct_tuples_of:
  assumes "classes_ok anagrams" "distinct c"
  shows "distinct (tuples_of anagrams c)"
  unfolding tuples_of_def
proof (subst distinct_map, intro conjI)
  show "distinct (product_lists (map (lookup anagrams) c))"
    using assms(1) by (intro distinct_product_lists) (auto simp: classes_ok_def)
  show "inj_on sort (set (product_lists (map (lookup anagrams) c)))"
  proof (rule inj_onI)
    fix s t assume s: "s \<in> set (product_lists (map (lookup anagrams) c))"
      and t: "t \<in> set (product_lists (map (lookup anagrams) c))" and e: "sort s = sort t"
    have "mset s = mset (sort s)" by simp
    also have "\<dots> = mset t" unfolding e by simp
    finally have m: "mset s = mset t" .
    have k: "map key_of s = c" "map key_of t = c"
      using product_keys[OF assms(1)] s t by simp_all
    then show "s = t" using assms(2) m by (intro same_keys_same_list[of key_of]) simp_all
  qed
qed

lemma tuple_determines_clique:
  assumes "classes_ok anagrams" "sorted c" "t \<in> set (tuples_of anagrams c)"
  shows "c = sort (map key_of t)"
proof -
  from assms(3) obtain s where s: "s \<in> set (product_lists (map (lookup anagrams) c))" "t = sort s"
    by (auto simp: tuples_of_def)
  have "mset (map key_of t) = mset (map key_of s)" using s(2) by simp
  also have "\<dots> = mset c" using product_keys[OF assms(1) s(1)] by simp
  finally have "sort (map key_of t) = sort c" by (rule sort_cong_mset)
  then show ?thesis using assms(2) by (simp add: sorted_sort_id)
qed

lemma distinct_all_tuples:
  assumes "classes_ok anagrams"
  shows "distinct cl \<Longrightarrow> \<forall>c\<in>set cl. sorted c \<and> distinct c \<Longrightarrow>
         distinct (concat (map (tuples_of anagrams) cl))"
proof (induction cl)
  case Nil
  then show ?case by simp
next
  case (Cons c cl)
  have "set (tuples_of anagrams c) \<inter> set (tuples_of anagrams c') = {}" if "c' \<in> set cl" for c'
  proof (rule ccontr)
    assume "set (tuples_of anagrams c) \<inter> set (tuples_of anagrams c') \<noteq> {}"
    then obtain t where "t \<in> set (tuples_of anagrams c)" "t \<in> set (tuples_of anagrams c')" by blast
    then have "c = c'"
      using tuple_determines_clique[OF assms, of c t] tuple_determines_clique[OF assms, of c' t]
        Cons.prems(2) that by simp
    then show False using Cons.prems(1) that by simp
  qed
  then show ?case
    using Cons distinct_tuples_of[OF assms, of c] by auto
qed

lemma tuples_of_props:
  assumes "t \<in> set (tuples_of anagrams c)"
  shows "sorted t \<and> length t = length c"
proof -
  from assms obtain s where s: "s \<in> set (product_lists (map (lookup anagrams) c))" "t = sort s"
    by (auto simp: tuples_of_def)
  then have "length s = length c" by (auto dest: in_set_product_lists_length)
  then show ?thesis using s(2) by simp
qed

lemma quintet_props:
  "xs \<in> quintets K \<Longrightarrow> set xs \<subseteq> K \<and> sorted xs \<and> distinct xs \<and> length xs = 5"
proof -
  assume a: "xs \<in> quintets K"
  then have "sorted_wrt (<) xs"
    by (auto intro: sorted_wrt_mono_rel[of xs disjoint_after]
        simp: quintets_def chain_def disjoint_after_def)
  then show ?thesis using a by (simp add: strict_sorted_iff quintets_def chain_def)
qed

lemma read_words_result:
  "case read_words f of
     Inl e \<Rightarrow> e = ValueError
       \<and> (\<exists>line\<in>set f. length (strip line) = 5 \<and> (\<exists>c\<in>set (strip line). c < CHR ''a''))
   | Inr anagrams \<Rightarrow> distinct (map fst anagrams)
       \<and> (\<forall>k. map_of anagrams k =
                (if word_class k (map strip f) = [] then None
                 else Some (word_class k (map strip f))))"
proof (cases "read_words f")
  case (Inl e)
  then show ?thesis using read_words_loop_error[of "[]" f e] by (simp add: read_words_def)
next
  case (Inr anagrams)
  then have "read_words_loop [] f = Inr anagrams" by (simp add: read_words_def)
  from read_words_loop_result[OF this] have
    r: "distinct (map fst anagrams)" "\<And>k. map_of anagrams k \<noteq> Some []"
       "\<And>k. lookup anagrams k = word_class k (map strip f)"
    by (simp_all add: lookup_def)
  show ?thesis using Inr r(1) map_of_by_lookup[OF r(2)] by (simp add: r(3))
qed

section \<open>Lowercase input\<close>

lemma valid_reversed_set_order: "valid_order reversed_set_order"
  by (simp add: valid_order_def reversed_set_order_def)

lemma below_of_bits:
  assumes "0 \<le> k" "bits k \<subseteq> {..<n}"
  shows "k < 2 ^ n"
proof -
  have "take_bit n k = k"
    using assms(2) by (intro bit_eqI) (auto simp: bit_take_bit_iff bits_def)
  then show ?thesis using take_bit_int_less_exp[of n k] by simp
qed

lemma alpha_index_less: "c \<le> CHR ''z'' \<Longrightarrow> alpha_index c < 26"
  by (simp add: alpha_index_def less_eq_char_def)

lemma letter_set_lowercase:
  assumes "lowercase w"
  shows "\<exists>k. letter_set w = Inr k \<and> 0 \<le> k \<and> k < 2 ^ 26 \<and> bit_count k = Some (card (set w))"
proof -
  have "\<forall>c\<in>set w. CHR ''a'' \<le> c" using assms by (simp add: lowercase_def)
  from letter_set_total[OF this] obtain k where
    k: "letter_set w = Inr k" "0 \<le> k" "bits k = alpha_index ` set w"
       "bit_count k = Some (card (set w))" by blast
  have "bits k \<subseteq> {..<26}" using k(3) assms by (auto simp: lowercase_def alpha_index_less)
  then have "k < 2 ^ 26" using k(2) by (intro below_of_bits)
  then show ?thesis using k by blast
qed

lemma word_class_member:
  "w \<in> set (word_class k ws) \<longleftrightarrow>
     w \<in> set ws \<and> length w = 5 \<and> letter_set w = Inr k \<and> bit_count k = Some 5"
  by (auto simp: word_class_def)

lemma word_class_lowercase:
  assumes "\<forall>w\<in>set ws. lowercase w"
  shows "word_class k ws =
     filter (\<lambda>w. letter_set w = Inr k) (filter (\<lambda>w. length w = 5 \<and> distinct w) ws)"
proof -
  have "(length w = 5 \<and> letter_set w = Inr k \<and> bit_count k = Some 5)
        \<longleftrightarrow> ((length w = 5 \<and> distinct w) \<and> letter_set w = Inr k)" if "w \<in> set ws" for w
  proof -
    from letter_set_lowercase[of w] assms that obtain r where
      r: "letter_set w = Inr r" "bit_count r = Some (card (set w))" by blast
    have "length w = 5 \<Longrightarrow> card (set w) = 5 \<longleftrightarrow> distinct w"
      using card_distinct[of w] distinct_card[of w] by auto
    then show ?thesis using r by auto
  qed
  then show ?thesis unfolding word_class_def filter_filter by (intro filter_cong) auto
qed

lemma read_words_lowercase:
  assumes "\<forall>line\<in>set f. lowercase (strip line)"
  shows "\<exists>anagrams. read_words f = Inr anagrams \<and> anagram_index_ok anagrams
           \<and> (\<forall>k. lookup anagrams k = word_class k (map strip f))"
proof (cases "read_words f")
  case (Inl e)
  then have "\<exists>line\<in>set f. \<exists>c\<in>set (strip line). c < CHR ''a''"
    using read_words_result[of f] by auto
  then obtain line c where "line \<in> set f" "c \<in> set (strip line)" "c < CHR ''a''" by blast
  moreover from this assms have "CHR ''a'' \<le> c" by (simp add: lowercase_def)
  ultimately have False by simp
  then show ?thesis ..
next
  case (Inr anagrams)
  then have d: "distinct (map fst anagrams)"
    and m: "\<And>k. map_of anagrams k =
                (if word_class k (map strip f) = [] then None
                 else Some (word_class k (map strip f)))"
    using read_words_result[of f] by simp_all
  have l: "lookup anagrams k = word_class k (map strip f)" for k
    by (simp add: lookup_def m)
  have "0 \<le> k \<and> k < 2 ^ 26 \<and> bit_count k = Some 5" if "k \<in> fst ` set anagrams" for k
  proof -
    have "map_of anagrams k \<noteq> None" using that by (simp add: map_of_eq_None_iff)
    then have "word_class k (map strip f) \<noteq> []" using m[of k] by (auto split: if_splits)
    then obtain w where "w \<in> set (word_class k (map strip f))" by (cases "word_class k (map strip f)") auto
    then have w: "w \<in> set (map strip f)" "letter_set w = Inr k" "bit_count k = Some 5"
      by (simp_all add: word_class_member)
    then have "lowercase w" using assms by auto
    from letter_set_lowercase[OF this] w(2,3) show ?thesis by auto
  qed
  then have "anagram_index_ok anagrams" using d by (simp add: anagram_index_ok_def)
  then show ?thesis using Inr l by blast
qed

lemma main_lowercase:
  assumes "\<forall>line\<in>set f. lowercase (strip line)" "valid_order ord" "4 \<le> fuel"
  shows "\<exists>anagrams st. read_words f = Inr anagrams \<and> anagram_index_ok anagrams
           \<and> (\<forall>k. lookup anagrams k = word_class k (map strip f))
           \<and> search fuel ord {} anagrams = Inr st
           \<and> distinct (cliques st) \<and> set (cliques st) = quintets (fst ` set anagrams)
           \<and> main fuel ord {} f
               = Inr (sort (concat (map (tuples_of anagrams) (cliques st))), prune st)"
proof -
  from read_words_lowercase[OF assms(1)] obtain anagrams where
    a: "read_words f = Inr anagrams" "anagram_index_ok anagrams"
       "\<forall>k. lookup anagrams k = word_class k (map strip f)" by blast
  have "mset (sort (map fst anagrams)) = mset (map fst anagrams)" by simp
  from search_correct[OF a(2) assms(2,3) this] obtain st where
    st: "search fuel ord {} anagrams = Inr st" "distinct (cliques st)"
    "set (cliques st) = quintets (fst ` set anagrams)"
    by (auto simp: search_def Let_def)
  have "\<forall>c\<in>set (cliques st). set c \<subseteq> fst ` set anagrams" using st(3) quintet_props by blast
  from sorted_tuples_keys[OF this]
  have "main fuel ord {} f = Inr (sort (concat (map (tuples_of anagrams) (cliques st))), prune st)"
    using a(1) st(1) by (simp add: main_def)
  then show ?thesis using a st by blast
qed

section \<open>The prune cache only grows\<close>

lemma merge_loop_prune_mono:
  assumes IH: "\<And>lw ws nb st b st'. merge n ord lw ws nb graph st = Inr (b, st') \<Longrightarrow>
                 prune st \<subseteq> prune st'"
  shows "merge_loop n ord last_word words neighbors graph rest r st = Inr (b, st') \<Longrightarrow>
         prune st \<subseteq> prune st'"
proof (induction rest arbitrary: r st)
  case Nil
  then show ?case by simp
next
  case (Cons x rest)
  show ?case
  proof (cases "last_word AND x \<noteq> 0 \<or> last_word OR x \<in> prune st")
    case True
    then have "merge_loop n ord last_word words neighbors graph rest r st = Inr (b, st')"
      using Cons.prems by (auto simp: Let_def split: if_splits)
    then show ?thesis by (rule Cons.IH)
  next
    case False
    then obtain adjacent where g: "map_of graph x = Some adjacent"
      using Cons.prems by (cases "map_of graph x") (auto simp: Let_def)
    let ?m = "merge n ord (last_word OR x) (last_word # words) (neighbors \<inter> adjacent) graph st"
    obtain ok st1 where m: "?m = Inr (ok, st1)"
      using Cons.prems False g by (cases ?m) (auto simp: Let_def)
    have s1: "prune st \<subseteq> prune st1" using m by (rule IH)
    show ?thesis
    proof (cases ok)
      case True
      then have "merge_loop n ord last_word words neighbors graph rest True st1 = Inr (b, st')"
        using Cons.prems False g m by (simp add: Let_def)
      from Cons.IH[OF this] s1 show ?thesis by blast
    next
      case F: False
      then have "merge_loop n ord last_word words neighbors graph rest r
                   (st1\<lparr>prune := insert (last_word OR x) (prune st1)\<rparr>) = Inr (b, st')"
        using Cons.prems False g m by (simp add: Let_def)
      from Cons.IH[OF this] s1 show ?thesis by auto
    qed
  qed
qed

lemma merge_prune_mono:
  "merge n ord last_word words neighbors graph st = Inr (b, st') \<Longrightarrow> prune st \<subseteq> prune st'"
proof (induction n arbitrary: last_word words neighbors st b st')
  case 0
  then show ?case by simp
next
  case (Suc n)
  show ?case
  proof (cases "card neighbors + (length words + 1) < 5 \<or> length words + 1 = 4")
    case True
    then show ?thesis
      using Suc.prems by (auto simp: TOTAL_LENGTH_def TOTAL_LENGTH_MINUS_ONE_def split: if_splits)
  next
    case False
    then have "merge_loop n ord last_word words neighbors graph
                 (ord (last_word # words) neighbors) False st = Inr (b, st')"
      using Suc.prems by (simp add: TOTAL_LENGTH_def TOTAL_LENGTH_MINUS_ONE_def)
    then show ?thesis using Suc.IH by (rule merge_loop_prune_mono[rotated])
  qed
qed

lemma find_cliques_prune_mono:
  "find_cliques n ord graph ks st = Inr st' \<Longrightarrow> prune st \<subseteq> prune st'"
proof (induction ks arbitrary: st)
  case Nil
  then show ?case by simp
next
  case (Cons w ks)
  then obtain nb where g: "map_of graph w = Some nb" by (cases "map_of graph w") auto
  obtain b st1 where m: "merge n ord w [] nb graph st = Inr (b, st1)"
    using Cons.prems g by (cases "merge n ord w [] nb graph st") auto
  then have "find_cliques n ord graph ks st1 = Inr st'" using Cons.prems g by simp
  from Cons.IH[OF this] merge_prune_mono[OF m] show ?case by blast
qed

lemma main_prune_mono:
  "main fuel ord prune0 f = Inr (answers, pruned) \<Longrightarrow> prune0 \<subseteq> pruned"
proof -
  assume a: "main fuel ord prune0 f = Inr (answers, pruned)"
  then obtain anagrams where r: "read_words f = Inr anagrams"
    by (cases "read_words f") (auto simp: main_def)
  obtain st where s: "search fuel ord prune0 anagrams = Inr st"
    using a r by (cases "search fuel ord prune0 anagrams") (auto simp: main_def)
  have "pruned = prune st"
    using a r s by (cases "sorted_tuples anagrams (cliques st)") (auto simp: main_def)
  moreover have "prune \<lparr>prune = prune0, cliques = []\<rparr> \<subseteq> prune st"
    using s unfolding search_def Let_def by (rule find_cliques_prune_mono)
  ultimately show ?thesis by simp
qed

section \<open>Every row is sorted\<close>

lemma sorted_tuples_sorted:
  "sorted_tuples anagrams cl = Inr ts \<Longrightarrow> \<forall>t\<in>set ts. sorted t"
proof (induction cl arbitrary: ts)
  case Nil
  then show ?case by simp
next
  case (Cons c cl)
  then obtain expanded where e: "expand c anagrams = Inr expanded"
    by (cases "expand c anagrams") auto
  obtain rest where r: "sorted_tuples anagrams cl = Inr rest"
    using Cons.prems e by (cases "sorted_tuples anagrams cl") auto
  have "ts = map sort expanded @ rest" using Cons.prems e r by simp
  then show ?case using Cons.IH[OF r] by auto
qed

lemma main_rows_sorted:
  assumes "main fuel ord prune0 f = Inr (answers, pruned)"
  shows "sorted answers \<and> (\<forall>t\<in>set answers. sorted t)"
proof -
  obtain anagrams where r: "read_words f = Inr anagrams"
    using assms by (cases "read_words f") (auto simp: main_def)
  obtain st where s: "search fuel ord prune0 anagrams = Inr st"
    using assms r by (cases "search fuel ord prune0 anagrams") (auto simp: main_def)
  obtain ts where t: "sorted_tuples anagrams (cliques st) = Inr ts"
    using assms r s by (cases "sorted_tuples anagrams (cliques st)") (auto simp: main_def)
  have "answers = sort ts" using assms r s t by (simp add: main_def)
  then show ?thesis using sorted_tuples_sorted[OF t] by simp
qed

section \<open>The exact content of the prune cache\<close>

lemma dead_below_not_loops: "\<not> loops K cs \<Longrightarrow> dead_below K cs = {}"
proof -
  assume nl: "\<not> loops K cs"
  have False if "zs \<noteq> []" "\<forall>n<length zs. loops K (cs @ take n zs)" for zs
  proof -
    have "0 < length zs" using that(1) by simp
    then have "loops K (cs @ take 0 zs)" using that(2) by blast
    then show False using nl by simp
  qed
  then show ?thesis unfolding dead_below_def by blast
qed

lemma dead_below_step:
  assumes ch: "chain K cs" and lp: "loops K cs"
  shows "dead_below K cs = (\<Union>x\<in>candidates K cs. branch_entries K cs x)"
proof (intro set_eqI iffI)
  fix u assume "u \<in> dead_below K cs"
  then obtain zs where zs: "u = union_of (cs @ zs)" "zs \<noteq> []" "chain K (cs @ zs)"
    "completions K (cs @ zs) = {}" "\<forall>n<length zs. loops K (cs @ take n zs)"
    unfolding dead_below_def by blast
  then obtain x zs' where c: "zs = x # zs'" by (cases zs) auto
  have chx: "chain K ((cs @ [x]) @ zs')" using zs(3) c by simp
  then have x: "x \<in> candidates K cs" using chain_append[of K "cs @ [x]" zs'] chain_snoc[of K cs x] by simp
  have "u \<in> branch_entries K cs x"
  proof (cases "zs' = []")
    case True
    then show ?thesis using zs(1,4) c by (simp add: branch_entries_def)
  next
    case False
    have "loops K ((cs @ [x]) @ take n zs')" if "n < length zs'" for n
    proof -
      have "Suc n < length zs" using that c by simp
      then have "loops K (cs @ take (Suc n) zs)" using zs(5) by blast
      then show ?thesis using c by simp
    qed
    then have "u \<in> dead_below K (cs @ [x])"
      unfolding dead_below_def using zs(1,4) c chx False
      by (intro CollectI exI[of _ zs']) simp
    then show ?thesis by (simp add: branch_entries_def)
  qed
  then show "u \<in> (\<Union>x\<in>candidates K cs. branch_entries K cs x)" using x by blast
next
  fix u assume "u \<in> (\<Union>x\<in>candidates K cs. branch_entries K cs x)"
  then obtain x where x: "x \<in> candidates K cs" "u \<in> branch_entries K cs x" by blast
  have chx: "chain K (cs @ [x])" using ch x(1) by (simp add: chain_snoc)
  from x(2) consider (here) "completions K (cs @ [x]) = {}" "u = union_of (cs @ [x])"
    | (below) "u \<in> dead_below K (cs @ [x])"
    by (auto simp: branch_entries_def split: if_splits)
  then show "u \<in> dead_below K cs"
  proof cases
    case here
    have "\<forall>n<length [x]. loops K (cs @ take n [x])" using lp by simp
    then show ?thesis
      unfolding dead_below_def using here chx by (intro CollectI exI[of _ "[x]"]) simp
  next
    case below
    then obtain zs' where zs: "u = union_of ((cs @ [x]) @ zs')" "zs' \<noteq> []"
      "chain K ((cs @ [x]) @ zs')" "completions K ((cs @ [x]) @ zs') = {}"
      "\<forall>n<length zs'. loops K ((cs @ [x]) @ take n zs')"
      unfolding dead_below_def by blast
    have "loops K (cs @ take n (x # zs'))" if "n < length (x # zs')" for n
    proof (cases n)
      case 0
      then show ?thesis using lp by simp
    next
      case (Suc m)
      then have "m < length zs'" using that by simp
      then have "loops K ((cs @ [x]) @ take m zs')" using zs(5) by blast
      then show ?thesis using Suc by simp
    qed
    then show ?thesis
      unfolding dead_below_def using zs(1,3,4)
      by (intro CollectI exI[of _ "x # zs'"]) simp
  qed
qed

lemma candidates_append: "candidates K (cs @ ts) = candidates K cs \<inter> candidates K ts"
  by (auto simp: candidates_def)

lemma dead_below_by_union:
  assumes K: "letter_sets_ok K" and cs: "chain K cs" "cs \<noteq> []" and ds: "chain K ds" "ds \<noteq> []"
    and u: "union_of cs = union_of ds"
  shows "dead_below K cs = dead_below K ds"
proof -
  have "5 * length cs = 5 * length ds"
    using card_bits_union_of[OF K cs(1)] card_bits_union_of[OF K ds(1)] u by simp
  then have len: "length cs = length ds" by simp
  have cand: "candidates K cs = candidates K ds"
    using candidates_by_union[OF K cs] candidates_by_union[OF K ds] u by simp
  have ch: "chain K (cs @ zs) \<longleftrightarrow> chain K (ds @ zs)" for zs
    using cs(1) ds(1) cand by (simp add: chain_append)
  have un: "union_of (cs @ zs) = union_of (ds @ zs)" for zs
    using u by (simp add: union_of_append)
  have lp: "loops K (cs @ ts) \<longleftrightarrow> loops K (ds @ ts)" for ts
    using len cand by (simp add: loops_def candidates_append)
  have co: "completions K (cs @ zs) = completions K (ds @ zs)" if "chain K (cs @ zs)" for zs
    using K that ch[of zs] cs(2) ds(2) un[of zs] by (intro completions_by_union) simp_all
  have "(zs \<noteq> [] \<and> chain K (cs @ zs) \<and> completions K (cs @ zs) = {}
          \<and> (\<forall>n<length zs. loops K (cs @ take n zs)))
        \<longleftrightarrow> (zs \<noteq> [] \<and> chain K (ds @ zs) \<and> completions K (ds @ zs) = {}
          \<and> (\<forall>n<length zs. loops K (ds @ take n zs)))" for zs
    using ch[of zs] co[of zs] lp by auto
  then show ?thesis unfolding dead_below_def using un by auto
qed

lemma sound_insert:
  assumes "letter_sets_ok K" "sound K P" "chain K ds" "ds \<noteq> []" "completions K ds = {}"
  shows "sound K (insert (union_of ds) P)"
  unfolding sound_def
proof (intro allI impI)
  fix cs assume a: "chain K cs \<and> cs \<noteq> [] \<and> union_of cs \<in> insert (union_of ds) P"
  show "completions K cs = {}"
  proof (cases "union_of cs = union_of ds")
    case True
    have "completions K cs = completions K ds"
      using assms(1,3,4) a True by (intro completions_by_union) simp_all
    then show ?thesis using assms(5) by simp
  next
    case False
    then show ?thesis using a assms(2) unfolding sound_def by blast
  qed
qed

lemma cache_closed_insert:
  assumes "letter_sets_ok K" "cache_closed K P" "chain K ds" "ds \<noteq> []" "dead_below K ds \<subseteq> P"
  shows "cache_closed K (insert (union_of ds) P)"
  unfolding cache_closed_def
proof (intro allI impI)
  fix cs assume a: "chain K cs \<and> cs \<noteq> [] \<and> union_of cs \<in> insert (union_of ds) P"
  show "dead_below K cs \<subseteq> insert (union_of ds) P"
  proof (cases "union_of cs = union_of ds")
    case True
    have "dead_below K cs = dead_below K ds"
      using assms(1,3,4) a True by (intro dead_below_by_union) simp_all
    then show ?thesis using assms(5) by blast
  next
    case False
    then show ?thesis using a assms(2) unfolding cache_closed_def by blast
  qed
qed

lemma cache_closed_Un:
  assumes "cache_closed K P" "cache_closed K Q"
  shows "cache_closed K (P \<union> Q)"
  using assms unfolding cache_closed_def by blast

lemma merge_loop_exact:
  assumes S: "setting K graph ord" and ch: "chain K cs" and ne: "cs \<noteq> []"
    and C: "\<And>x st. x \<in> candidates K cs \<Longrightarrow> sound K (prune st) \<Longrightarrow>
        merge_post K (cs @ [x]) st
          (merge n ord (union_of (cs @ [x])) (running_unions cs) (candidates K (cs @ [x])) graph st)"
    and IH: "\<And>x st b st'. x \<in> candidates K cs \<Longrightarrow> sound K (prune st) \<Longrightarrow>
        cache_closed K (prune st) \<Longrightarrow>
        merge n ord (union_of (cs @ [x])) (running_unions cs) (candidates K (cs @ [x])) graph st
          = Inr (b, st') \<Longrightarrow>
        prune st' = prune st \<union> dead_below K (cs @ [x]) \<and> cache_closed K (prune st')"
  shows "set rest \<subseteq> candidates K cs \<Longrightarrow> sound K (prune st) \<Longrightarrow> cache_closed K (prune st) \<Longrightarrow>
         merge_loop n ord (union_of cs) (tl (running_unions cs)) (candidates K cs) graph rest r st
           = Inr (b, st') \<Longrightarrow>
         prune st' = prune st \<union> (\<Union>x\<in>set rest. branch_entries K cs x)
         \<and> cache_closed K (prune st')"
proof (induction rest arbitrary: r st)
  case Nil
  then show ?case by simp
next
  case (Cons x rest)
  let ?L = "\<lambda>r st. merge_loop n ord (union_of cs) (tl (running_unions cs)) (candidates K cs)
                       graph rest r st"
  have K: "letter_sets_ok K" using S by (simp add: setting_def)
  have x: "x \<in> candidates K cs" and rest': "set rest \<subseteq> candidates K cs"
    using Cons.prems(1) by auto
  have xK: "x \<in> K" using x by (simp add: candidates_def)
  have dis: "union_of cs AND x = 0"
    using x by (simp add: candidates_def union_of_and_zero_iff disjoint_after_def)
  have chx: "chain K (cs @ [x])" "cs @ [x] \<noteq> []" using ch x by (simp_all add: chain_snoc)
  have g: "map_of graph x = Some {b \<in> K. disjoint_after x b}"
    using S xK by (simp add: setting_def graph_of_def)
  have path: "union_of cs # tl (running_unions cs) = running_unions cs"
    using running_unions_nonempty[OF ne] by simp
  have cand: "candidates K cs \<inter> {b \<in> K. disjoint_after x b} = candidates K (cs @ [x])"
    by (simp add: candidates_snoc)
  show ?case
  proof (cases "union_of (cs @ [x]) \<in> prune st")
    case True
    then have empty: "completions K (cs @ [x]) = {}"
      using Cons.prems(2) chx unfolding sound_def by blast
    have "dead_below K (cs @ [x]) \<subseteq> prune st"
      using Cons.prems(3) chx True unfolding cache_closed_def by blast
    then have sub: "branch_entries K cs x \<subseteq> prune st"
      using True empty by (simp add: branch_entries_def)
    have "?L r st = Inr (b, st')"
      using Cons.prems(4) True dis by (simp add: union_of_snoc)
    from Cons.IH[OF rest' Cons.prems(2,3) this] sub show ?thesis by auto
  next
    case False
    from C[OF x Cons.prems(2)] obtain ok st1 where
      m: "merge n ord (union_of (cs @ [x])) (running_unions cs) (candidates K (cs @ [x])) graph st
            = Inr (ok, st1)"
      and ok: "ok \<longleftrightarrow> completions K (cs @ [x]) \<noteq> {}"
      and s1: "sound K (prune st1)"
      unfolding merge_post_def grows_def by blast
    from IH[OF x Cons.prems(2,3) m] have
      p1: "prune st1 = prune st \<union> dead_below K (cs @ [x])" and c1: "cache_closed K (prune st1)"
      by blast+
    show ?thesis
    proof (cases ok)
      case True
      have "?L True st1 = Inr (b, st')"
        using Cons.prems(4) False dis g m True by (simp add: union_of_snoc path cand)
      from Cons.IH[OF rest' s1 c1 this] p1 True ok show ?thesis
        by (auto simp: branch_entries_def)
    next
      case F: False
      let ?st = "st1\<lparr>prune := insert (union_of (cs @ [x])) (prune st1)\<rparr>"
      have empty: "completions K (cs @ [x]) = {}" using F ok by simp
      have l: "?L r ?st = Inr (b, st')"
        using Cons.prems(4) False dis g m F by (simp add: union_of_snoc path cand)
      have s2: "sound K (prune ?st)"
        using sound_insert[OF K s1 chx empty] by simp
      have "dead_below K (cs @ [x]) \<subseteq> prune st1" using p1 by blast
      from cache_closed_insert[OF K c1 chx this] have c2: "cache_closed K (prune ?st)" by simp
      from Cons.IH[OF rest' s2 c2 l] p1 empty show ?thesis
        by (auto simp: branch_entries_def)
    qed
  qed
qed

lemma merge_exact:
  assumes S: "setting K graph ord"
  shows "chain K cs \<Longrightarrow> cs \<noteq> [] \<Longrightarrow> length cs \<le> 4 \<Longrightarrow> 5 \<le> n + length cs \<Longrightarrow>
         sound K (prune st) \<Longrightarrow> cache_closed K (prune st) \<Longrightarrow>
         merge n ord (union_of cs) (tl (running_unions cs)) (candidates K cs) graph st = Inr (b, st')
         \<Longrightarrow> prune st' = prune st \<union> dead_below K cs \<and> cache_closed K (prune st')"
proof (induction n arbitrary: cs st b st')
  case 0
  then show ?case by simp
next
  case (Suc n)
  note ch = Suc.prems(1) and ne = Suc.prems(2)
  have vo: "valid_order ord" and finK: "finite K"
    using S by (simp_all add: setting_def letter_sets_ok_def)
  have fin: "finite (candidates K cs)" using finK by (simp add: candidates_def)
  have len: "Suc (length cs - Suc 0) = length cs" using ne by (cases cs) simp_all
  have path: "union_of cs # tl (running_unions cs) = running_unions cs"
    using running_unions_nonempty[OF ne] by simp
  let ?os = "ord (running_unions cs) (candidates K cs)"
  have os: "set ?os = candidates K cs" using vo fin by (simp add: valid_order_def)
  show ?case
  proof (cases "loops K cs")
    case False
    then have d: "dead_below K cs = {}" by (rule dead_below_not_loops)
    from False consider "card (candidates K cs) + length cs < 5" | "length cs = 4"
      using Suc.prems(3) by (auto simp: loops_def)
    then have "prune st' = prune st"
    proof cases
      case 1
      then show ?thesis
        using Suc.prems(7) len by (simp add: TOTAL_LENGTH_def)
    next
      case 2
      then show ?thesis
        using Suc.prems(7) len
        by (auto simp: TOTAL_LENGTH_def TOTAL_LENGTH_MINUS_ONE_def split: if_splits)
    qed
    then show ?thesis using d Suc.prems(6) by simp
  next
    case True
    then have lt: "length cs < 4" and nb: "\<not> card (candidates K cs) + length cs < 5"
      by (simp_all add: loops_def)
    have m: "merge_loop n ord (union_of cs) (tl (running_unions cs)) (candidates K cs) graph
                    ?os False st = Inr (b, st')"
      using Suc.prems(7) nb len lt
      by (simp add: TOTAL_LENGTH_def TOTAL_LENGTH_MINUS_ONE_def path)
    have C: "merge_post K (cs @ [x]) st0
          (merge n ord (union_of (cs @ [x])) (running_unions cs) (candidates K (cs @ [x])) graph st0)"
      if "x \<in> candidates K cs" "sound K (prune st0)" for x st0
    proof -
      have "chain K (cs @ [x])" using ch that(1) by (simp add: chain_snoc)
      from merge_correct[OF S this _ _ _ that(2), of n] lt Suc.prems(4) show ?thesis
        by (simp add: running_unions_snoc)
    qed
    have IH: "prune st2 = prune st0 \<union> dead_below K (cs @ [x]) \<and> cache_closed K (prune st2)"
      if "x \<in> candidates K cs" "sound K (prune st0)" "cache_closed K (prune st0)"
        "merge n ord (union_of (cs @ [x])) (running_unions cs) (candidates K (cs @ [x])) graph st0
          = Inr (b0, st2)" for x st0 b0 st2
    proof -
      have "chain K (cs @ [x])" using ch that(1) by (simp add: chain_snoc)
      have "merge n ord (union_of (cs @ [x])) (tl (running_unions (cs @ [x])))
              (candidates K (cs @ [x])) graph st0 = Inr (b0, st2)"
        using that(4) by (simp add: running_unions_snoc)
      moreover have "cs @ [x] \<noteq> []" "length (cs @ [x]) \<le> 4" "5 \<le> n + length (cs @ [x])"
        using lt Suc.prems(4) by simp_all
      ultimately show ?thesis using Suc.IH[OF \<open>chain K (cs @ [x])\<close> _ _ _ that(2,3)] by blast
    qed
    have sub: "set ?os \<subseteq> candidates K cs" using os by simp
    have r: "prune st' = prune st \<union> (\<Union>x\<in>set ?os. branch_entries K cs x)
             \<and> cache_closed K (prune st')"
      using S ch ne C IH sub Suc.prems(5,6) m by (rule merge_loop_exact)
    have d: "dead_below K cs = (\<Union>x\<in>set ?os. branch_entries K cs x)"
      using dead_below_step[OF ch True] os by simp
    show ?thesis unfolding d by (rule r)
  qed
qed

lemma find_cliques_exact:
  assumes S: "setting K graph ord" and n: "4 \<le> n"
  shows "set ks \<subseteq> K \<Longrightarrow> sound K (prune st) \<Longrightarrow> cache_closed K (prune st) \<Longrightarrow>
         find_cliques n ord graph ks st = Inr st' \<Longrightarrow>
         prune st' = prune st \<union> (\<Union>w\<in>set ks. dead_below K [w]) \<and> cache_closed K (prune st')"
proof (induction ks arbitrary: st)
  case Nil
  then show ?case by simp
next
  case (Cons w ks)
  have w: "w \<in> K" and ks: "set ks \<subseteq> K" using Cons.prems(1) by auto
  have g: "map_of graph w = Some (candidates K [w])"
    using S w by (simp add: setting_def graph_of_def candidates_single)
  have ch: "chain K [w]" using w by (simp add: chain_def)
  from merge_correct[OF S ch _ _ _ Cons.prems(2), of n] n
  have "merge_post K [w] st (merge n ord w [] (candidates K [w]) graph st)"
    by (simp add: running_unions_def)
  then obtain b st1 where
    m: "merge n ord w [] (candidates K [w]) graph st = Inr (b, st1)"
    and s1: "sound K (prune st1)"
    unfolding merge_post_def grows_def by blast
  have "merge n ord (union_of [w]) (tl (running_unions [w])) (candidates K [w]) graph st
          = Inr (b, st1)"
    using m by (simp add: running_unions_def)
  moreover have "[w] \<noteq> []" "length [w] \<le> 4" "5 \<le> n + length [w]" using n by simp_all
  ultimately have p1: "prune st1 = prune st \<union> dead_below K [w]"
    and c1: "cache_closed K (prune st1)"
    using merge_exact[OF S ch _ _ _ Cons.prems(2,3)] by blast+
  have "find_cliques n ord graph ks st1 = Inr st'" using Cons.prems(4) g m by simp
  from Cons.IH[OF ks s1 c1 this] p1 show ?case by auto
qed

lemma failed_branches_top: "(\<Union>w\<in>K. dead_below K [w]) = failed_branches K"
proof (intro set_eqI iffI)
  fix u assume "u \<in> (\<Union>w\<in>K. dead_below K [w])"
  then obtain w zs where zs: "u = union_of ([w] @ zs)" "zs \<noteq> []" "chain K ([w] @ zs)"
    "completions K ([w] @ zs) = {}" "\<forall>n<length zs. loops K ([w] @ take n zs)"
    unfolding dead_below_def by blast
  have "loops K (take n (w # zs))" if "0 < n \<and> n < length (w # zs)" for n
  proof -
    from that obtain m where m: "n = Suc m" "m < length zs" by (cases n) auto
    then have "loops K ([w] @ take m zs)" using zs(5) by blast
    then show ?thesis using m by simp
  qed
  moreover have "2 \<le> length (w # zs)" using zs(2) by (cases zs) simp_all
  ultimately show "u \<in> failed_branches K"
    unfolding failed_branches_def using zs(1,3,4)
    by (intro CollectI exI[of _ "w # zs"]) simp
next
  fix u assume "u \<in> failed_branches K"
  then obtain ys where ys: "u = union_of ys" "2 \<le> length ys" "chain K ys" "completions K ys = {}"
    "\<forall>n. 0 < n \<and> n < length ys \<longrightarrow> loops K (take n ys)"
    unfolding failed_branches_def by blast
  from ys(2) obtain w zs where c0: "ys = w # zs" by (cases ys) auto
  with ys(2) have "zs \<noteq> []" by auto
  note c = c0 this
  have w: "w \<in> K" using ys(3) c by (simp add: chain_def)
  have "loops K ([w] @ take n zs)" if "n < length zs" for n
  proof -
    have "0 < Suc n \<and> Suc n < length ys" using that c by simp
    then have "loops K (take (Suc n) ys)" using ys(5) by blast
    then show ?thesis using c by simp
  qed
  then have "u \<in> dead_below K [w]"
    unfolding dead_below_def using ys(1,3,4) c
    by (intro CollectI exI[of _ zs]) simp
  then show "u \<in> (\<Union>w\<in>K. dead_below K [w])" using w by blast
qed

lemma search_cache_exact:
  assumes "anagram_index_ok anagrams" "valid_order ord" "4 \<le> fuel"
    "search fuel ord {} anagrams = Inr st"
  shows "prune st = failed_branches (fst ` set anagrams)"
proof -
  let ?K = "fst ` set anagrams"
  have S: "setting ?K (neighbor_graph anagrams) ord" using assms(1,2) by (rule setting_index)
  have f: "find_cliques fuel ord (neighbor_graph anagrams) (sort (map fst anagrams))
             \<lparr>prune = {}, cliques = []\<rparr> = Inr st"
    using assms(4) by (simp add: search_def Let_def)
  have "sound ?K (prune \<lparr>prune = {}, cliques = []\<rparr>)"
    "cache_closed ?K (prune \<lparr>prune = {}, cliques = []\<rparr>)"
    by (simp_all add: sound_def cache_closed_def)
  from find_cliques_exact[OF S assms(3) _ this f]
  have "prune st = (\<Union>w\<in>?K. dead_below ?K [w])" by simp
  then show ?thesis by (simp only: failed_branches_top)
qed

lemma sound_failed_branches:
  assumes "letter_sets_ok K" "P \<subseteq> failed_branches K"
  shows "sound K P"
  unfolding sound_def
proof (intro allI impI)
  fix cs assume a: "chain K cs \<and> cs \<noteq> [] \<and> union_of cs \<in> P"
  then have "union_of cs \<in> failed_branches K" using assms(2) by blast
  then obtain zs where zs: "union_of cs = union_of zs" "2 \<le> length zs" "chain K zs"
    "completions K zs = {}" unfolding failed_branches_def by blast
  then have "zs \<noteq> []" by auto
  then have "completions K cs = completions K zs"
    using assms(1) a zs(1,3) by (intro completions_by_union) simp_all
  then show "completions K cs = {}" using zs(4) by simp
qed

lemma merge_reports_failure_iff:
  assumes "anagram_index_ok anagrams" "valid_order ord"
    "chain (fst ` set anagrams) cs" "cs \<noteq> []" "length cs \<le> 4"
    "prune st \<subseteq> failed_branches (fst ` set anagrams)"
  shows "\<exists>st'. merge 4 ord (union_of cs) (tl (running_unions cs))
                 (candidates (fst ` set anagrams) cs) (neighbor_graph anagrams) st
               = Inr (completions (fst ` set anagrams) cs \<noteq> {}, st')"
proof -
  let ?K = "fst ` set anagrams"
  have S: "setting ?K (neighbor_graph anagrams) ord" using assms(1,2) by (rule setting_index)
  have "sound ?K (prune st)"
    using letter_sets_ok_index[OF assms(1)] assms(6) by (rule sound_failed_branches)
  from merge_correct[OF S assms(3,4,5) _ this, of 4] assms(4) show ?thesis
    unfolding merge_post_def by (cases cs) auto
qed

lemma search_cache_result:
  assumes "anagram_index_ok anagrams" "valid_order ord" "4 \<le> fuel"
  shows "\<exists>st. search fuel ord {} anagrams = Inr st
           \<and> prune st = failed_branches (fst ` set anagrams)"
proof -
  have "mset (sort (map fst anagrams)) = mset (map fst anagrams)" by simp
  from search_correct[OF assms this] obtain st where
    "search fuel ord {} anagrams = Inr st" by (auto simp: search_def Let_def)
  then show ?thesis using search_cache_exact[OF assms] by blast
qed

section \<open>Claims\<close>

text \<open>
  C1 (search completeness and soundness). For every anagram index (distinct keys, every
  key a set of exactly five of the 26 letters), every order of visiting sets and every
  recursion budget of at least four nested calls, the search started with an empty prune
  cache returns, and the cliques it has accumulated are exactly the sets of five
  pairwise letter-disjoint keys, each listed once, in ascending order of its keys.
\<close>

theorem search_emits_exactly_the_disjoint_quintets:
  assumes "anagram_index_ok anagrams" "valid_order ord" "4 \<le> fuel"
  shows "\<exists>st. search fuel ord {} anagrams = Inr st
           \<and> set (cliques st) =
               {sorted_list_of_set Q | Q. Q \<subseteq> fst ` set anagrams \<and> card Q = 5 \<and> letter_disjoint Q}
           \<and> distinct (cliques st)"
proof -
  have "mset (sort (map fst anagrams)) = mset (map fst anagrams)" by simp
  from search_correct[OF assms this] obtain st where
    "search fuel ord {} anagrams = Inr st" "distinct (cliques st)"
    "set (cliques st) = quintets (fst ` set anagrams)"
    by (auto simp: search_def Let_def)
  then show ?thesis by (simp add: quintets_as_sets)
qed

theorem search_emits_exactly_the_disjoint_quintets_witness:
  "\<exists>st. search 4 sorted_set_order {}
           [(31, [''abcde'']), (992, [''fghij'']), (31744, [''klmno'']),
            (1015808, [''pqrst'']), (32505856, [''uvwxy'']), (65011712, [''vwxyz''])] = Inr st
        \<and> [31, 992, 31744, 1015808, 32505856] \<in> set (cliques st)
        \<and> distinct (cliques st)"
proof -
  let ?idx = "[(31, [''abcde'']), (992, [''fghij'']), (31744, [''klmno'']),
            (1015808, [''pqrst'']), (32505856, [''uvwxy'']), (65011712, [''vwxyz''])]
            :: anagram_index"
  have bc: "bit_count 31 = Some 5" "bit_count 992 = Some 5" "bit_count 31744 = Some 5"
    "bit_count 1015808 = Some 5" "bit_count 32505856 = Some 5" "bit_count 65011712 = Some 5"
    by code_simp+
  have ok: "anagram_index_ok ?idx"
    by (simp add: anagram_index_ok_def bc)
  have four: "(4::nat) \<le> 4" by simp
  from search_emits_exactly_the_disjoint_quintets[OF ok valid_sorted_set_order four]
  obtain st where st: "search 4 sorted_set_order {} ?idx = Inr st"
    "set (cliques st) =
       {sorted_list_of_set Q | Q. Q \<subseteq> fst ` set ?idx \<and> card Q = 5 \<and> letter_disjoint Q}"
    "distinct (cliques st)" by blast
  let ?Q = "{31, 992, 31744, 1015808, 32505856} :: int set"
  have "sorted_list_of_set ?Q = [31, 992, 31744, 1015808, 32505856]" by simp
  moreover have "?Q \<subseteq> fst ` set ?idx" "card ?Q = 5" by simp_all
  moreover have "letter_disjoint ?Q" by (simp add: letter_disjoint_def)
  ultimately have "[31, 992, 31744, 1015808, 32505856] \<in> set (cliques st)"
    unfolding st(2) by (intro CollectI exI[of _ ?Q]) simp
  then show ?thesis using st(1,3) by blast
qed

text \<open>
  C2 (order independence). Take any anagram index, any two orders \<open>ks1\<close>, \<open>ks2\<close> in which
  the top-level loop visits the keys, and any two orders \<open>ord1\<close>, \<open>ord2\<close> in which the calls
  of \<open>merge\<close> visit their candidate sets (each call may have an order of its own). Both
  searches, each started with an empty prune cache, return; they have emitted the same
  set of cliques, and the sorted list of canonical word tuples computed from them is
  the same list. The prune caches of the two searches may differ.
\<close>

theorem emitted_cliques_independent_of_iteration_order:
  assumes "anagram_index_ok anagrams" "valid_order ord1" "valid_order ord2"
    "mset ks1 = mset (map fst anagrams)" "mset ks2 = mset (map fst anagrams)" "4 \<le> fuel"
  shows "\<exists>st1 st2 tuples1 tuples2.
           find_cliques fuel ord1 (neighbor_graph anagrams) ks1 \<lparr>prune = {}, cliques = []\<rparr> = Inr st1
         \<and> find_cliques fuel ord2 (neighbor_graph anagrams) ks2 \<lparr>prune = {}, cliques = []\<rparr> = Inr st2
         \<and> set (cliques st1) = set (cliques st2)
         \<and> sorted_tuples anagrams (cliques st1) = Inr tuples1
         \<and> sorted_tuples anagrams (cliques st2) = Inr tuples2
         \<and> sort tuples1 = sort tuples2"
proof -
  let ?K = "fst ` set anagrams"
  from search_correct[OF assms(1,2,6,4)] obtain st1 where
    1: "find_cliques fuel ord1 (neighbor_graph anagrams) ks1 \<lparr>prune = {}, cliques = []\<rparr> = Inr st1"
       "distinct (cliques st1)" "set (cliques st1) = quintets ?K" by blast
  from search_correct[OF assms(1,3,6,5)] obtain st2 where
    2: "find_cliques fuel ord2 (neighbor_graph anagrams) ks2 \<lparr>prune = {}, cliques = []\<rparr> = Inr st2"
       "distinct (cliques st2)" "set (cliques st2) = quintets ?K" by blast
  have m: "mset (cliques st1) = mset (cliques st2)"
    using 1 2 by (simp add: set_eq_iff_mset_eq_distinct[symmetric])
  have k1: "\<forall>c\<in>set (cliques st1). set c \<subseteq> ?K" using 1(3) quintet_props by blast
  have k2: "\<forall>c\<in>set (cliques st2). set c \<subseteq> ?K" using 2(3) quintet_props by blast
  let ?t1 = "concat (map (tuples_of anagrams) (cliques st1))"
  let ?t2 = "concat (map (tuples_of anagrams) (cliques st2))"
  have "mset ?t1 = mset ?t2" by (simp only: mset_concat_map m)
  then have "sort ?t1 = sort ?t2" by (rule sort_cong_mset)
  then show ?thesis
    using 1 2 sorted_tuples_keys[OF k1] sorted_tuples_keys[OF k2] by auto
qed

theorem emitted_cliques_independent_of_iteration_order_witness:
  "\<exists>st1 st2 tuples1 tuples2.
      find_cliques 4 sorted_set_order
        (neighbor_graph [(31, [''abcde'']), (992, [''fghij'']), (31744, [''klmno'']),
            (1015808, [''pqrst'']), (32505856, [''uvwxy'']), (65011712, [''vwxyz''])])
        [31, 992, 31744, 1015808, 32505856, 65011712] \<lparr>prune = {}, cliques = []\<rparr> = Inr st1
    \<and> find_cliques 4 reversed_set_order
        (neighbor_graph [(31, [''abcde'']), (992, [''fghij'']), (31744, [''klmno'']),
            (1015808, [''pqrst'']), (32505856, [''uvwxy'']), (65011712, [''vwxyz''])])
        [65011712, 32505856, 1015808, 31744, 992, 31] \<lparr>prune = {}, cliques = []\<rparr> = Inr st2
    \<and> set (cliques st1) = set (cliques st2)
    \<and> sorted_tuples [(31, [''abcde'']), (992, [''fghij'']), (31744, [''klmno'']),
            (1015808, [''pqrst'']), (32505856, [''uvwxy'']), (65011712, [''vwxyz''])] (cliques st1)
         = Inr tuples1
    \<and> sorted_tuples [(31, [''abcde'']), (992, [''fghij'']), (31744, [''klmno'']),
            (1015808, [''pqrst'']), (32505856, [''uvwxy'']), (65011712, [''vwxyz''])] (cliques st2)
         = Inr tuples2
    \<and> sort tuples1 = sort tuples2"
proof -
  let ?idx = "[(31, [''abcde'']), (992, [''fghij'']), (31744, [''klmno'']),
            (1015808, [''pqrst'']), (32505856, [''uvwxy'']), (65011712, [''vwxyz''])]
            :: anagram_index"
  have bc: "bit_count 31 = Some 5" "bit_count 992 = Some 5" "bit_count 31744 = Some 5"
    "bit_count 1015808 = Some 5" "bit_count 32505856 = Some 5" "bit_count 65011712 = Some 5"
    by code_simp+
  have ok: "anagram_index_ok ?idx"
    by (simp add: anagram_index_ok_def bc)
  have four: "(4::nat) \<le> 4" by simp
  have k1: "mset [31, 992, 31744, 1015808, 32505856, 65011712 :: int] = mset (map fst ?idx)"
    by simp
  have k2: "mset [65011712, 32505856, 1015808, 31744, 992, 31 :: int] = mset (map fst ?idx)"
    by simp
  show ?thesis
    by (rule emitted_cliques_independent_of_iteration_order
          [OF ok valid_sorted_set_order valid_reversed_set_order k1 k2 four])
qed

lemma cliques_order_example:
  "map_sum id cliques (find_cliques 4 sorted_set_order
        (neighbor_graph [(31, [''abcde'']), (992, [''fghij'']), (31744, [''klmno'']),
            (1015808, [''pqrst'']), (32505856, [''uvwxy'']), (65011712, [''vwxyz''])])
        [31, 992, 31744, 1015808, 32505856, 65011712] \<lparr>prune = {}, cliques = []\<rparr>)
    = Inr [[31, 992, 31744, 1015808, 32505856], [31, 992, 31744, 1015808, 65011712]]
   \<and> map_sum id cliques (find_cliques 4 reversed_set_order
        (neighbor_graph [(31, [''abcde'']), (992, [''fghij'']), (31744, [''klmno'']),
            (1015808, [''pqrst'']), (32505856, [''uvwxy'']), (65011712, [''vwxyz''])])
        [65011712, 32505856, 1015808, 31744, 992, 31] \<lparr>prune = {}, cliques = []\<rparr>)
    = Inr [[31, 992, 31744, 1015808, 65011712], [31, 992, 31744, 1015808, 32505856]]"
  by code_simp

text \<open>
  C3 (prune cache lifecycle), as the code has it. (1) A call of \<open>merge\<close> that returns
  leaves a cache that contains the cache it started with: nothing is ever removed.
  (2) A call that fails the bound check returns failure and leaves the whole state as it
  is. (3) A call in the base case, with three earlier unions and a candidate left,
  returns success and leaves the cache as it is. (4) The loop of \<open>merge\<close> skips a
  candidate that overlaps the chosen letters or whose union with them is cached: the
  state is not touched. (5) For any other candidate the loop inserts the union exactly
  when the recursive call reports failure, leaves the cache of the recursive call as it
  is when the call reports success, and goes on with the remaining candidates.
  (6) On an index of five-letter sets, the call for a chain of one to four keys, started
  with a cache of unions of failed branches, reports failure exactly when the chain has
  no completion. (7) A search from the empty cache returns, and the cache it leaves is
  exactly the set of the unions of the failed branches: the chains of two or more keys
  with no completion that the search reaches through calls that enter their loop.
  (8) The cache is empty when the module is loaded. (9) \<open>main\<close> never resets it: the
  cache after a run contains the cache the run started with, so the next run in the same
  process starts from the cache the previous one left. With the cache left by a first
  run, a second run on another word list starts with four entries and finds no answer,
  where a run from the empty cache finds one.
\<close>

theorem prune_cache_lifecycle:
  "(merge fuel ord last_word words neighbors graph st = Inr (found, st')
      \<longrightarrow> prune st \<subseteq> prune st')
   \<and> (card neighbors + (length words + 1) < 5
      \<longrightarrow> merge (Suc fuel) ord last_word words neighbors graph st = Inr (False, st))
   \<and> (5 \<le> card neighbors + (length words + 1) \<and> length words = 3
      \<longrightarrow> (\<exists>st2. merge (Suc fuel) ord last_word words neighbors graph st = Inr (True, st2)
             \<and> prune st2 = prune st))
   \<and> (last_word AND neighbor_word \<noteq> 0 \<or> last_word OR neighbor_word \<in> prune st
      \<longrightarrow> merge_loop fuel ord last_word words neighbors graph (neighbor_word # rest) result st
            = merge_loop fuel ord last_word words neighbors graph rest result st)
   \<and> (last_word AND neighbor_word = 0 \<and> last_word OR neighbor_word \<notin> prune st
        \<and> map_of graph neighbor_word = Some adjacent
        \<and> merge fuel ord (last_word OR neighbor_word) (last_word # words)
              (neighbors \<inter> adjacent) graph st = Inr (found_below, st1)
      \<longrightarrow> merge_loop fuel ord last_word words neighbors graph (neighbor_word # rest) result st
            = merge_loop fuel ord last_word words neighbors graph rest (result \<or> found_below)
                (st1\<lparr>prune := (if found_below then prune st1
                               else insert (last_word OR neighbor_word) (prune st1))\<rparr>))
   \<and> (anagram_index_ok anagrams \<and> valid_order ord \<and> chain (fst ` set anagrams) cs \<and> cs \<noteq> []
        \<and> length cs \<le> 4 \<and> prune st \<subseteq> failed_branches (fst ` set anagrams)
      \<longrightarrow> (\<exists>st2. merge 4 ord (union_of cs) (tl (running_unions cs))
                    (candidates (fst ` set anagrams) cs) (neighbor_graph anagrams) st
                  = Inr (completions (fst ` set anagrams) cs \<noteq> {}, st2)))
   \<and> (anagram_index_ok anagrams \<and> valid_order ord \<and> 4 \<le> fuel
      \<longrightarrow> (\<exists>st2. search fuel ord prune_at_load anagrams = Inr st2
             \<and> prune st2 = failed_branches (fst ` set anagrams)))
   \<and> prune_at_load = {}
   \<and> (main fuel ord prune0 f = Inr (answers, pruned) \<longrightarrow> prune0 \<subseteq> pruned)"
proof (intro conjI)
  show "merge fuel ord last_word words neighbors graph st = Inr (found, st')
      \<longrightarrow> prune st \<subseteq> prune st'"
    using merge_prune_mono by blast
  show "card neighbors + (length words + 1) < 5
      \<longrightarrow> merge (Suc fuel) ord last_word words neighbors graph st = Inr (False, st)"
    by (simp add: TOTAL_LENGTH_def)
  show "5 \<le> card neighbors + (length words + 1) \<and> length words = 3
      \<longrightarrow> (\<exists>st2. merge (Suc fuel) ord last_word words neighbors graph st = Inr (True, st2)
             \<and> prune st2 = prune st)"
    by (simp add: TOTAL_LENGTH_def TOTAL_LENGTH_MINUS_ONE_def)
  show "last_word AND neighbor_word \<noteq> 0 \<or> last_word OR neighbor_word \<in> prune st
      \<longrightarrow> merge_loop fuel ord last_word words neighbors graph (neighbor_word # rest) result st
            = merge_loop fuel ord last_word words neighbors graph rest result st"
    by (auto simp: Let_def)
  show "last_word AND neighbor_word = 0 \<and> last_word OR neighbor_word \<notin> prune st
        \<and> map_of graph neighbor_word = Some adjacent
        \<and> merge fuel ord (last_word OR neighbor_word) (last_word # words)
              (neighbors \<inter> adjacent) graph st = Inr (found_below, st1)
      \<longrightarrow> merge_loop fuel ord last_word words neighbors graph (neighbor_word # rest) result st
            = merge_loop fuel ord last_word words neighbors graph rest (result \<or> found_below)
                (st1\<lparr>prune := (if found_below then prune st1
                               else insert (last_word OR neighbor_word) (prune st1))\<rparr>)"
    by (cases found_below) (simp_all add: Let_def)
  show "anagram_index_ok anagrams \<and> valid_order ord \<and> chain (fst ` set anagrams) cs \<and> cs \<noteq> []
        \<and> length cs \<le> 4 \<and> prune st \<subseteq> failed_branches (fst ` set anagrams)
      \<longrightarrow> (\<exists>st2. merge 4 ord (union_of cs) (tl (running_unions cs))
                    (candidates (fst ` set anagrams) cs) (neighbor_graph anagrams) st
                  = Inr (completions (fst ` set anagrams) cs \<noteq> {}, st2))"
    using merge_reports_failure_iff[of anagrams ord cs st] by blast
  show "anagram_index_ok anagrams \<and> valid_order ord \<and> 4 \<le> fuel
      \<longrightarrow> (\<exists>st2. search fuel ord prune_at_load anagrams = Inr st2
             \<and> prune st2 = failed_branches (fst ` set anagrams))"
    using search_cache_result[of anagrams ord fuel] by (simp add: prune_at_load_def)
  show "prune_at_load = {}" by (simp add: prune_at_load_def)
  show "main fuel ord prune0 f = Inr (answers, pruned) \<longrightarrow> prune0 \<subseteq> pruned"
    using main_prune_mono by blast
qed

theorem prune_cache_lifecycle_witness:
  "merge 1 sorted_set_order 1023 [31] {31744} [] \<lparr>prune = {}, cliques = []\<rparr>
     = Inr (False, \<lparr>prune = {}, cliques = []\<rparr>)
   \<and> (\<exists>st2. merge 1 sorted_set_order 1048575 [32767, 1023, 31] {32505856} []
               \<lparr>prune = {31775}, cliques = []\<rparr> = Inr (True, st2)
          \<and> prune st2 = {31775})
   \<and> merge_loop 1 sorted_set_order 31 [] {31744} [(31744, {})] [31744] False
        \<lparr>prune = {31775}, cliques = []\<rparr>
     = Inr (False, \<lparr>prune = {31775}, cliques = []\<rparr>)
   \<and> merge_loop 1 sorted_set_order 31 [] {992} [(992, {})] [992] False \<lparr>prune = {}, cliques = []\<rparr>
     = Inr (False, \<lparr>prune = {1023}, cliques = []\<rparr>)
   \<and> merge 4 sorted_set_order 31775 [31] {1015808, 32505856}
        (neighbor_graph [(31, [''abcde'']), (992, [''fghij'']), (31744, [''klmno'']),
                         (1015808, [''pqrst'']), (32505856, [''uvwxy''])])
        \<lparr>prune = {}, cliques = []\<rparr>
     = Inr (False, \<lparr>prune = {}, cliques = []\<rparr>)
   \<and> completions {31, 992, 31744, 1015808, 32505856} [31, 31744] = {}
   \<and> search 4 sorted_set_order prune_at_load
        [(31, [''abcde'']), (992, [''fghij'']), (31744, [''klmno'']),
         (1015808, [''pqrst'']), (32505856, [''uvwxy''])]
     = Inr \<lparr>prune = {32505887, 1015839, 31775, 32506879, 1016831, 32538623},
            cliques = [[31, 992, 31744, 1015808, 32505856]]\<rparr>
   \<and> failed_branches {31, 992, 31744, 1015808, 32505856}
     = {32505887, 1015839, 31775, 32506879, 1016831, 32538623}
   \<and> main 4 sorted_set_order {1023}
        [''abcde\<newline>'', ''fghij\<newline>'', ''klmno\<newline>'', ''pqrst\<newline>'', ''uvwxy\<newline>'']
     = Inr ([], {32505887, 1015839, 31775, 1023})
   \<and> {1023} \<subseteq> {32505887, 1015839, 31775, 1023 :: int}"
proof -
  let ?st = "\<lparr>prune = {}, cliques = []\<rparr> :: search_state"
  let ?st1 = "\<lparr>prune = {31775}, cliques = []\<rparr> :: search_state"
  let ?f = "[''abcde\<newline>'', ''fghij\<newline>'', ''klmno\<newline>'', ''pqrst\<newline>'', ''uvwxy\<newline>'']"
  let ?idx = "[(31, [''abcde'']), (992, [''fghij'']), (31744, [''klmno'']),
               (1015808, [''pqrst'']), (32505856, [''uvwxy''])] :: anagram_index"
  let ?K = "{31, 992, 31744, 1015808, 32505856} :: int set"
  let ?P = "{32505887, 1015839, 31775, 32506879, 1016831, 32538623} :: int set"

  \<comment> \<open>the bound check\<close>
  note tA = prune_cache_lifecycle[where fuel=0 and ord=sorted_set_order and last_word=1023
      and words="[31]" and neighbors="{31744}" and graph="[]" and st="?st"]
  have hA: "card {31744::int} + (length [31::int] + 1) < 5" by simp
  have A: "merge 1 sorted_set_order 1023 [31] {31744} [] ?st = Inr (False, ?st)"
    using tA hA by simp

  \<comment> \<open>the base case\<close>
  note tB = prune_cache_lifecycle[where fuel=0 and ord=sorted_set_order and last_word=1048575
      and words="[32767, 1023, 31]" and neighbors="{32505856}" and graph="[]" and st="?st1"]
  have hB: "5 \<le> card {32505856::int} + (length [32767, 1023, 31::int] + 1)
            \<and> length [32767, 1023, 31::int] = 3" by simp
  have B: "\<exists>st2. merge 1 sorted_set_order 1048575 [32767, 1023, 31] {32505856} [] ?st1
                 = Inr (True, st2) \<and> prune st2 = {31775}"
    using tB hB by simp

  \<comment> \<open>a candidate whose union is cached is skipped\<close>
  note tC = prune_cache_lifecycle[where fuel=1 and ord=sorted_set_order and last_word=31
      and words="[]" and neighbors="{31744}" and graph="[(31744, {})]" and st="?st1"
      and neighbor_word=31744 and rest="[]" and result=False]
  have hC: "31 AND 31744 \<noteq> (0::int) \<or> 31 OR 31744 \<in> prune ?st1" by simp
  have C: "merge_loop 1 sorted_set_order 31 [] {31744} [(31744, {})] [31744] False ?st1
           = Inr (False, ?st1)"
    using tC hC by simp

  \<comment> \<open>a branch that fails is cached\<close>
  have m: "merge 1 sorted_set_order (31 OR 992) [31] ({992} \<inter> {}) [(992, {})] ?st = Inr (False, ?st)"
    by (simp add: TOTAL_LENGTH_def)
  have hD: "31 AND 992 = (0::int) \<and> 31 OR 992 \<notin> prune ?st
        \<and> map_of [(992, {})] (992::int) = Some ({}::int set)
        \<and> merge 1 sorted_set_order (31 OR 992) [31] ({992} \<inter> {}) [(992, {})] ?st
            = Inr (False, ?st)"
    using m by simp
  note tD = prune_cache_lifecycle[where fuel=1 and ord=sorted_set_order and last_word=31
      and words="[]" and neighbors="{992}" and graph="[(992, {})]" and st="?st"
      and neighbor_word=992 and adjacent="{}" and found_below=False and ?st1.0="?st"
      and result=False and rest="[]"]
  have D: "merge_loop 1 sorted_set_order 31 [] {992} [(992, {})] [992] False ?st
     = Inr (False, \<lparr>prune = {1023}, cliques = []\<rparr>)"
    using tD hD by simp

  \<comment> \<open>the search from the empty cache\<close>
  have bc: "bit_count 31 = Some 5" "bit_count 992 = Some 5" "bit_count 31744 = Some 5"
    "bit_count 1015808 = Some 5" "bit_count 32505856 = Some 5"
    by code_simp+
  have ok: "anagram_index_ok ?idx"
    by (simp add: anagram_index_ok_def bc)
  have K: "fst ` set ?idx = ?K" by simp
  have ch: "chain (fst ` set ?idx) [31, 31744]"
    by (simp add: chain_def disjoint_after_def)
  have hE: "anagram_index_ok ?idx \<and> valid_order sorted_set_order
        \<and> chain (fst ` set ?idx) [31, 31744] \<and> [31, 31744] \<noteq> ([]::int list)
        \<and> length [31, 31744::int] \<le> 4 \<and> prune ?st \<subseteq> failed_branches (fst ` set ?idx)"
    using ok valid_sorted_set_order ch by simp
  have hS: "anagram_index_ok ?idx \<and> valid_order sorted_set_order \<and> (4::nat) \<le> 4"
    using ok valid_sorted_set_order by simp
  note tE = prune_cache_lifecycle[where fuel=4 and ord=sorted_set_order and anagrams="?idx"
      and cs="[31, 31744]" and st="?st"]
  have cand: "candidates ?K [31, 31744] = {1015808, 32505856}"
    by (auto simp: candidates_def disjoint_after_def)
  have ru: "union_of [31, 31744] = 31775" "tl (running_unions [31, 31744]) = [31]"
    by (simp_all add: union_of_def running_unions_def)
  have E0: "merge 4 sorted_set_order 31775 [31] {1015808, 32505856} (neighbor_graph ?idx) ?st
            = Inr (False, ?st)"
    by code_simp
  note tE6 = tE[THEN conjunct2, THEN conjunct2, THEN conjunct2, THEN conjunct2, THEN conjunct2,
      THEN conjunct1, THEN mp, OF hE]
  note tE7 = tE[THEN conjunct2, THEN conjunct2, THEN conjunct2, THEN conjunct2, THEN conjunct2,
      THEN conjunct2, THEN conjunct1, THEN mp, OF hS]
  from tE6 obtain st2 where
    "merge 4 sorted_set_order (union_of [31, 31744]) (tl (running_unions [31, 31744]))
        (candidates (fst ` set ?idx) [31, 31744]) (neighbor_graph ?idx) ?st
       = Inr (completions (fst ` set ?idx) [31, 31744] \<noteq> {}, st2)" ..
  then have E: "completions ?K [31, 31744] = {}"
    unfolding K cand ru E0 by simp
  have S0: "search 4 sorted_set_order prune_at_load ?idx
            = Inr \<lparr>prune = ?P, cliques = [[31, 992, 31744, 1015808, 32505856]]\<rparr>"
    by code_simp
  from tE7 obtain st3 where st3:
    "search 4 sorted_set_order prune_at_load ?idx = Inr st3
     \<and> prune st3 = failed_branches (fst ` set ?idx)" ..
  then have "st3 = \<lparr>prune = ?P, cliques = [[31, 992, 31744, 1015808, 32505856]]\<rparr>"
    unfolding S0 by simp
  then have "prune st3 = ?P" by simp
  then have F: "failed_branches ?K = ?P"
    using st3 unfolding K by simp

  \<comment> \<open>a run of main keeps the cache it starts with\<close>
  have r: "main 4 sorted_set_order {1023} ?f = Inr ([], {32505887, 1015839, 31775, 1023})"
    by code_simp
  note tF = prune_cache_lifecycle[where fuel=4 and ord=sorted_set_order and ?prune0.0="{1023}"
      and f="?f" and answers="[]" and pruned="{32505887, 1015839, 31775, 1023}"]
  have G: "{1023} \<subseteq> {32505887, 1015839, 31775, 1023 :: int}"
    using tF r by blast
  show ?thesis
    by (intro conjI) (fact A, fact B, fact C, fact D, fact E0, fact E, fact S0, fact F, fact r, fact G)
qed

theorem prune_cache_not_reset_counterexample:
  "main 4 sorted_set_order prune_at_load
        [''abcde\<newline>'', ''fghij\<newline>'', ''fklmn\<newline>'', ''fopqr\<newline>'', ''fstuv\<newline>'']
     = Inr ([], {3932223, 245823, 15423, 1023})
   \<and> main 4 sorted_set_order {3932223, 245823, 15423, 1023}
        [''abcde\<newline>'', ''fghij\<newline>'', ''klmno\<newline>'', ''pqrst\<newline>'', ''uvwxy\<newline>'']
     = Inr ([], {32505887, 1015839, 31775, 3932223, 245823, 15423, 1023})
   \<and> main 4 sorted_set_order prune_at_load
        [''abcde\<newline>'', ''fghij\<newline>'', ''klmno\<newline>'', ''pqrst\<newline>'', ''uvwxy\<newline>'']
     = Inr ([[''abcde'', ''fghij'', ''klmno'', ''pqrst'', ''uvwxy'']],
            {32505887, 1015839, 31775, 32506879, 1016831, 32538623})"
  by code_simp

text \<open>
  C4 (output canonicalization), as the code has it. \<open>main\<close> sorts each tuple and sorts
  the list of tuples; it never removes duplicates. Whenever \<open>main\<close> returns, every row
  written is a sorted tuple and the list of rows is sorted. For every input of lowercase
  words, run from the empty cache of a freshly loaded module, \<open>main\<close> returns, every
  row has five words, and the list has no duplicate row provided no word of five
  distinct letters occurs twice in the input. With a repeated word the same row is
  written more than once.
\<close>

theorem answers_sorted_and_canonical:
  "(main fuel ord prune0 f = Inr (answers, pruned)
      \<longrightarrow> sorted answers \<and> (\<forall>t\<in>set answers. sorted t))
   \<and> ((\<forall>line\<in>set f. lowercase (strip line)) \<and> valid_order ord \<and> 4 \<le> fuel
      \<longrightarrow> (\<exists>rows cache. main fuel ord {} f = Inr (rows, cache)
             \<and> (\<forall>t\<in>set rows. length t = 5)
             \<and> (distinct (filter (\<lambda>w. length w = 5 \<and> distinct w) (map strip f))
                  \<longrightarrow> distinct rows)))"
proof (rule conjI)
  show "main fuel ord prune0 f = Inr (answers, pruned)
      \<longrightarrow> sorted answers \<and> (\<forall>t\<in>set answers. sorted t)"
    using main_rows_sorted[of fuel ord prune0 f answers pruned] by blast
next
  show "(\<forall>line\<in>set f. lowercase (strip line)) \<and> valid_order ord \<and> 4 \<le> fuel
      \<longrightarrow> (\<exists>rows cache. main fuel ord {} f = Inr (rows, cache)
             \<and> (\<forall>t\<in>set rows. length t = 5)
             \<and> (distinct (filter (\<lambda>w. length w = 5 \<and> distinct w) (map strip f))
                  \<longrightarrow> distinct rows))"
  proof (rule impI)
  assume a: "(\<forall>line\<in>set f. lowercase (strip line)) \<and> valid_order ord \<and> 4 \<le> fuel"
  then have lc: "\<forall>line\<in>set f. lowercase (strip line)" and vo: "valid_order ord"
    and fu: "4 \<le> fuel" by simp_all
  from main_lowercase[OF lc vo fu] obtain anagrams and st :: search_state where
    a: "anagram_index_ok anagrams" "\<forall>k. lookup anagrams k = word_class k (map strip f)"
       "distinct (cliques st)" "set (cliques st) = quintets (fst ` set anagrams)"
       "main fuel ord {} f = Inr (sort (concat (map (tuples_of anagrams) (cliques st))), prune st)"
    by blast
  let ?ts = "concat (map (tuples_of anagrams) (cliques st))"
  have q: "\<forall>c\<in>set (cliques st). sorted c \<and> distinct c \<and> length c = 5"
    using a(4) quintet_props by blast
  have props: "\<forall>t\<in>set (sort ?ts). length t = 5"
    using q tuples_of_props[of _ anagrams] by fastforce
  have dis: "distinct (sort ?ts)"
    if d: "distinct (filter (\<lambda>w. length w = 5 \<and> distinct w) (map strip f))"
  proof -
    have lw: "\<forall>w\<in>set (map strip f). lowercase w" using lc by simp
    have "classes_ok anagrams"
      unfolding classes_ok_def
    proof (intro allI conjI ballI)
      fix k
      have "lookup anagrams k = word_class k (map strip f)" using a(2) by blast
      also have "\<dots> = filter (\<lambda>w. letter_set w = Inr k)
                         (filter (\<lambda>w. length w = 5 \<and> distinct w) (map strip f))"
        by (rule word_class_lowercase[OF lw])
      finally show "distinct (lookup anagrams k)" using d by (simp only: distinct_filter)
      fix w assume "w \<in> set (lookup anagrams k)"
      then show "letter_set w = Inr k" using a(2) by (simp add: word_class_member)
    qed
    from distinct_all_tuples[OF this a(3)] q show ?thesis by simp
  qed
  show "\<exists>rows cache. main fuel ord {} f = Inr (rows, cache)
             \<and> (\<forall>t\<in>set rows. length t = 5)
             \<and> (distinct (filter (\<lambda>w. length w = 5 \<and> distinct w) (map strip f))
                  \<longrightarrow> distinct rows)"
    using a(5) props dis by (intro exI[of _ "sort ?ts"] exI[of _ "prune st"]) simp
  qed
qed

theorem answers_sorted_and_canonical_witness:
  "\<exists>answers pruned. main 4 sorted_set_order {}
        [''abcde\<newline>'', ''vwxyz\<newline>'', ''fghij\<newline>'', ''klmno\<newline>'', ''hello\<newline>'', ''pqrst\<newline>'', ''uvwxy\<newline>'', ''hello\<newline>'']
        = Inr (answers, pruned)
    \<and> sorted answers \<and> distinct answers"
proof -
  let ?f = "[''abcde\<newline>'', ''vwxyz\<newline>'', ''fghij\<newline>'', ''klmno\<newline>'', ''hello\<newline>'', ''pqrst\<newline>'', ''uvwxy\<newline>'', ''hello\<newline>'']"
  have s: "map strip ?f = [''abcde'', ''vwxyz'', ''fghij'', ''klmno'', ''hello'', ''pqrst'', ''uvwxy'', ''hello'']"
    by code_simp
  have l: "\<forall>line\<in>set ?f. lowercase (strip line)"
    using s by (simp add: lowercase_def less_eq_char_def)
  have d: "distinct (filter (\<lambda>w. length w = 5 \<and> distinct w) (map strip ?f))"
    unfolding s by simp
  have four: "(4::nat) \<le> 4" by simp
  note t = answers_sorted_and_canonical[where f="?f" and ord=sorted_set_order and fuel=4
      and ?prune0.0="{}"]
  from t l d valid_sorted_set_order four obtain rows cache where
    r: "main 4 sorted_set_order {} ?f = Inr (rows, cache)" "distinct rows" by blast
  from t[where answers=rows and pruned=cache] r(1) have "sorted rows" by blast
  then show ?thesis using r by blast
qed

theorem answers_duplicate_counterexample:
  "main 4 sorted_set_order {}
        [''abcde\<newline>'', ''fghij\<newline>'', ''klmno\<newline>'', ''pqrst\<newline>'', ''uvwxy\<newline>'', ''abcde\<newline>'']
     = Inr ([[''abcde'', ''fghij'', ''klmno'', ''pqrst'', ''uvwxy''],
             [''abcde'', ''fghij'', ''klmno'', ''pqrst'', ''uvwxy'']],
            {32505887, 1015839, 31775, 32506879, 1016831, 32538623})"
  by code_simp

text \<open>
  C5 (base-case return value). A call of \<open>merge\<close> with four chosen letter sets (three
  earlier unions in \<open>words\<close> besides \<open>last_word\<close>) returns success iff its candidate set
  is not empty; with an empty candidate set it returns failure and leaves the state as it
  was.
\<close>

theorem merge_base_case_success_iff_candidates:
  assumes "finite neighbors" "length words = 3"
  shows "\<exists>st'. merge (Suc fuel) ord last_word words neighbors graph st = Inr (neighbors \<noteq> {}, st')
           \<and> (neighbors = {} \<longrightarrow> st' = st)"
  using assms
  by (auto simp: TOTAL_LENGTH_def TOTAL_LENGTH_MINUS_ONE_def card_gt_0_iff)

theorem merge_base_case_success_iff_candidates_witness:
  "(\<exists>st'. merge 1 sorted_set_order 1048575 [32767, 1023, 31] {32505856, 65011712} []
            \<lparr>prune = {}, cliques = []\<rparr> = Inr (True, st'))
   \<and> merge 1 sorted_set_order 1048575 [32767, 1023, 31] {} [] \<lparr>prune = {}, cliques = []\<rparr>
       = Inr (False, \<lparr>prune = {}, cliques = []\<rparr>)"
proof -
  have f: "finite {32505856, 65011712 :: int}" "finite ({} :: int set)" by simp_all
  have l: "length [32767, 1023, 31 :: int] = 3" by simp
  show ?thesis
    using merge_base_case_success_iff_candidates[OF f(1) l, of 0 sorted_set_order 1048575 "[]"
            "\<lparr>prune = {}, cliques = []\<rparr>"]
          merge_base_case_success_iff_candidates[OF f(2) l, of 0 sorted_set_order 1048575 "[]"
            "\<lparr>prune = {}, cliques = []\<rparr>"]
    by auto
qed

text \<open>
  C6 (emitted-clique round trip). For every chain \<open>cs\<close> of letter sets over the 26 letters
  in which every earlier set is disjoint from every later one, \<open>untangle_words\<close> applied
  to the running unions (the union of all of \<open>cs\<close> first, then the union of each shorter
  prefix) gives back \<open>cs\<close>. In the base case of \<open>merge\<close>, reached with four chosen sets
  \<open>cs\<close>, the tuples appended to \<open>cliques\<close> are \<open>cs\<close> followed by \<open>c\<close>, one for each
  candidate \<open>c\<close> in the order the set is visited, when the candidates are letter sets
  disjoint from the chosen ones.
\<close>

theorem untangle_words_recovers_chosen:
  assumes "\<forall>c\<in>set cs. 0 \<le> c \<and> c < 2 ^ 26" "sorted_wrt (\<lambda>a b. a AND b = 0) cs"
  shows "untangle_words (running_unions cs) = cs
         \<and> (length cs = 4 \<and> valid_order ord \<and> finite neighbors \<and> neighbors \<noteq> {}
              \<and> (\<forall>x\<in>neighbors. 0 \<le> x \<and> x < 2 ^ 26 \<and> (\<forall>c\<in>set cs. c AND x = 0))
            \<longrightarrow> merge (Suc fuel) ord (union_of cs) (tl (running_unions cs)) neighbors graph st
                  = Inr (True, st\<lparr>cliques := cliques st @
                           map (\<lambda>c. cs @ [c]) (ord (running_unions cs) neighbors)\<rparr>))"
proof (intro conjI impI)
  show "untangle_words (running_unions cs) = cs"
    using assms by (rule untangle_running_unions)
next
  assume a: "length cs = 4 \<and> valid_order ord \<and> finite neighbors \<and> neighbors \<noteq> {}
              \<and> (\<forall>x\<in>neighbors. 0 \<le> x \<and> x < 2 ^ 26 \<and> (\<forall>c\<in>set cs. c AND x = 0))"
  then have ne: "cs \<noteq> []" by auto
  have path: "union_of cs # tl (running_unions cs) = running_unions cs"
    using running_unions_nonempty[OF ne] by simp
  have len: "Suc (length cs - Suc 0) = 4" using a by simp
  let ?os = "ord (running_unions cs) neighbors"
  have os: "set ?os = neighbors" using a by (simp add: valid_order_def)
  have emit: "untangle_words ((x OR union_of cs) # union_of cs # tl (running_unions cs)) = cs @ [x]"
    if "x \<in> neighbors" for x
  proof -
    have "\<forall>c\<in>set (cs @ [x]). 0 \<le> c \<and> c < 2 ^ 26" using assms(1) a that by auto
    moreover have "sorted_wrt (\<lambda>a b. a AND b = 0) (cs @ [x])"
      using assms(2) a that by (simp add: sorted_wrt_append)
    ultimately have "untangle_words (running_unions (cs @ [x])) = cs @ [x]"
      by (rule untangle_running_unions)
    then show ?thesis by (simp add: running_unions_snoc union_of_snoc path or.commute)
  qed
  have "0 < card neighbors" using a by (simp add: card_gt_0_iff)
  then show "merge (Suc fuel) ord (union_of cs) (tl (running_unions cs)) neighbors graph st
                  = Inr (True, st\<lparr>cliques := cliques st @ map (\<lambda>c. cs @ [c]) ?os\<rparr>)"
    using len emit os
    by (simp add: TOTAL_LENGTH_def TOTAL_LENGTH_MINUS_ONE_def path cong: map_cong)
qed

theorem untangle_words_recovers_chosen_witness:
  "untangle_words [33554431, 1048575, 32767, 1023, 31] = [31, 992, 31744, 1015808, 32505856]
   \<and> merge 1 sorted_set_order 1048575 [32767, 1023, 31] {32505856} [] \<lparr>prune = {}, cliques = []\<rparr>
       = Inr (True, \<lparr>prune = {}, cliques = [[31, 992, 31744, 1015808, 32505856]]\<rparr>)"
proof -
  have a5: "\<forall>c\<in>set [31, 992, 31744, 1015808, 32505856 :: int]. 0 \<le> c \<and> c < 2 ^ 26"
    "sorted_wrt (\<lambda>a b. a AND b = 0) [31, 992, 31744, 1015808, 32505856 :: int]"
    by simp_all
  have a4: "\<forall>c\<in>set [31, 992, 31744, 1015808 :: int]. 0 \<le> c \<and> c < 2 ^ 26"
    "sorted_wrt (\<lambda>a b. a AND b = 0) [31, 992, 31744, 1015808 :: int]"
    by simp_all
  have r5: "running_unions [31, 992, 31744, 1015808, 32505856] = [33554431, 1048575, 32767, 1023, 31]"
    by (simp add: running_unions_def upt_rec)
  have r4: "running_unions [31, 992, 31744, 1015808] = [1048575, 32767, 1023, 31]"
    "union_of [31, 992, 31744, 1015808] = 1048575"
    by (simp_all add: running_unions_def upt_rec)
  have o: "sorted_set_order [1048575, 32767, 1023, 31] {32505856} = [32505856]"
    by (simp add: sorted_set_order_def)
  have pre: "length [31, 992, 31744, 1015808 :: int] = 4 \<and> valid_order sorted_set_order
       \<and> finite {32505856 :: int} \<and> {32505856 :: int} \<noteq> {}
       \<and> (\<forall>x\<in>{32505856 :: int}. 0 \<le> x \<and> x < 2 ^ 26
             \<and> (\<forall>c\<in>set [31, 992, 31744, 1015808]. c AND x = 0))"
    by (simp add: valid_sorted_set_order)
  from untangle_words_recovers_chosen[OF a5] have "untangle_words
      (running_unions [31, 992, 31744, 1015808, 32505856]) = [31, 992, 31744, 1015808, 32505856]"
    by blast
  moreover from untangle_words_recovers_chosen[OF a4, of sorted_set_order "{32505856}" 0 "[]"
      "\<lparr>prune = {}, cliques = []\<rparr>"] pre
  have "merge (Suc 0) sorted_set_order (union_of [31, 992, 31744, 1015808])
          (tl (running_unions [31, 992, 31744, 1015808])) {32505856} []
          \<lparr>prune = {}, cliques = []\<rparr>
        = Inr (True, \<lparr>prune = {}, cliques = [] @ map (\<lambda>c. [31, 992, 31744, 1015808] @ [c])
             (sorted_set_order (running_unions [31, 992, 31744, 1015808]) {32505856})\<rparr>)"
    by simp
  ultimately show ?thesis unfolding r5 r4 o by simp
qed

text \<open>
  C7 (disjointness graph). For every anagram index (a dict: its keys are distinct), the
  graph has an entry for exactly the keys of the index, and the entry of \<open>A\<close> is the set
  of the keys \<open>B\<close> that share no letter with \<open>A\<close> and are numerically greater than \<open>A\<close>:
  there is an edge from \<open>A\<close> to \<open>B\<close> iff \<open>A AND B = 0\<close> and \<open>A < B\<close>.
\<close>

theorem neighbor_graph_edges:
  assumes "distinct (map fst anagrams)"
  shows "map_of (neighbor_graph anagrams) A =
           (if A \<in> fst ` set anagrams
            then Some {B \<in> fst ` set anagrams. A AND B = 0 \<and> A < B}
            else None)"
proof -
  have "{B \<in> fst ` set anagrams. disjoint_after A B} = {B \<in> fst ` set anagrams. A AND B = 0 \<and> A < B}"
    by (auto simp: disjoint_after_def)
  then show ?thesis using map_of_neighbor_graph[OF assms, of A] by simp
qed

theorem neighbor_graph_edges_witness:
  "map_of (neighbor_graph [(992, [''fghij'']), (31, [''abcde'', ''bcdea'']), (62, [''bcdef''])]) 31
     = Some {992}
   \<and> map_of (neighbor_graph [(992, [''fghij'']), (31, [''abcde'', ''bcdea'']), (62, [''bcdef''])]) 992
     = Some {}"
proof -
  let ?idx = "[(992, [''fghij'']), (31, [''abcde'', ''bcdea'']), (62, [''bcdef''])] :: anagram_index"
  have d: "distinct (map fst ?idx)" by simp
  have "{B \<in> fst ` set ?idx. 31 AND B = 0 \<and> 31 < B} = {992}" by auto
  moreover have "{B \<in> fst ` set ?idx. 992 AND B = 0 \<and> 992 < B} = {}" by auto
  ultimately show ?thesis
    using neighbor_graph_edges[OF d, of 31] neighbor_graph_edges[OF d, of 992] by simp
qed

text \<open>
  C8 (codec invariant). For every word made of lowercase letters only, \<open>letter_set\<close>
  returns, and \<open>bit_count\<close> of the result returns the number of distinct letters of the
  word: 5 for a word of five distinct letters, and less than the length of the word when
  a letter is repeated.
\<close>

theorem codec_bit_count_distinct_letters:
  assumes "\<forall>c\<in>set word. CHR ''a'' \<le> c \<and> c \<le> CHR ''z''"
  shows "\<exists>ls. letter_set word = Inr ls \<and> bit_count ls = Some (card (set word))
           \<and> (distinct word \<and> length word = 5 \<longrightarrow> bit_count ls = Some 5)
           \<and> (\<not> distinct word \<longrightarrow> (\<exists>n. bit_count ls = Some n \<and> n < length word))"
proof -
  from assms have "\<forall>c\<in>set word. CHR ''a'' \<le> c" by blast
  from letter_set_total[OF this] obtain ls where
    ls: "letter_set word = Inr ls" "bit_count ls = Some (card (set word))" by blast
  have "distinct word \<Longrightarrow> card (set word) = length word"
    by (rule distinct_card)
  moreover have "\<not> distinct word \<Longrightarrow> card (set word) < length word"
    using card_length[of word] card_distinct[of word] by linarith
  ultimately show ?thesis using ls by auto
qed

theorem codec_bit_count_distinct_letters_witness:
  "(\<exists>ls. letter_set ''glyph'' = Inr ls \<and> bit_count ls = Some 5)
   \<and> (\<exists>ls n. letter_set ''hello'' = Inr ls \<and> bit_count ls = Some n \<and> n < 5)"
proof -
  have g: "\<forall>c\<in>set ''glyph''. CHR ''a'' \<le> c \<and> c \<le> CHR ''z''"
    by (simp add: less_eq_char_def)
  have h: "\<forall>c\<in>set ''hello''. CHR ''a'' \<le> c \<and> c \<le> CHR ''z''"
    by (simp add: less_eq_char_def)
  show ?thesis
    using codec_bit_count_distinct_letters[OF g] codec_bit_count_distinct_letters[OF h]
    by auto
qed

text \<open>
  C9 (anagram index: filtering and order). \<open>read_words\<close> either raises \<open>ValueError\<close>,
  which happens only when some line, stripped, has length 5 and a character below
  \<open>a\<close>, or returns an index with distinct keys in which the entry of a key \<open>k\<close> is
  the list of the stripped lines that have length 5, letter set \<open>k\<close> and a population
  count of 5, in input order (and \<open>k\<close> is a key only if that list is not empty). So a
  word is in the index iff its length is 5 and the population count of its letter set is
  5, and it is in the class of its letter set, in input order.
\<close>

theorem read_words_index:
  "case read_words f of
     Inl e \<Rightarrow> e = ValueError
       \<and> (\<exists>line\<in>set f. length (strip line) = 5 \<and> (\<exists>c\<in>set (strip line). c < CHR ''a''))
   | Inr anagrams \<Rightarrow> distinct (map fst anagrams)
       \<and> (\<forall>k. map_of anagrams k =
                (if word_class k (map strip f) = [] then None
                 else Some (word_class k (map strip f))))"
  by (rule read_words_result)

theorem read_words_example:
  "read_words [''abcde\<newline>'', ''hello\<newline>'', ''fghij\<newline>'', ''toolong\<newline>'', '' bcdea \<newline>'']
     = Inr [(31, [''abcde'', ''bcdea'']), (992, [''fghij''])]
   \<and> read_words [''abcde\<newline>'', ''Hello\<newline>''] = Inl ValueError"
  by code_simp

text \<open>
  C10 (termination). For every anagram index, every order of visiting sets and every
  initial prune cache, the search returns with a budget of four nested calls of
  \<open>merge\<close>: the recursion is never deeper than four calls, one for each number of chosen
  letter sets from one to four. Moreover the candidate set passed to a recursive call,
  \<open>neighbors \<inter> graph[neighbor_word]\<close>, is a strict subset of the caller's \<open>neighbors\<close>,
  since \<open>neighbor_word\<close> is not its own neighbour.
\<close>

theorem merge_search_terminates:
  assumes "distinct (map fst anagrams)" "valid_order ord" "4 \<le> fuel"
  shows "(\<exists>st. search fuel ord prune0 anagrams = Inr st)
         \<and> (\<forall>neighbors neighbor_word adjacent.
               neighbor_word \<in> neighbors
               \<and> map_of (neighbor_graph anagrams) neighbor_word = Some adjacent
               \<longrightarrow> neighbors \<inter> adjacent \<subset> neighbors)"
proof (intro conjI allI impI)
  have "finite (fst ` set anagrams)" by simp
  from find_cliques_returns[OF graph_of_neighbor_graph[OF assms(1)] assms(2) this assms(3),
      of "sort (map fst anagrams)" "\<lparr>prune = prune0, cliques = []\<rparr>"]
  show "\<exists>st. search fuel ord prune0 anagrams = Inr st"
    by (simp add: search_def Let_def)
next
  fix neighbors neighbor_word adjacent
  assume a: "neighbor_word \<in> neighbors
               \<and> map_of (neighbor_graph anagrams) neighbor_word = Some adjacent"
  then have "neighbor_word \<notin> adjacent"
    using map_of_neighbor_graph[OF assms(1), of neighbor_word]
    by (auto simp: disjoint_after_def split: if_splits)
  then show "neighbors \<inter> adjacent \<subset> neighbors" using a by blast
qed

theorem merge_search_terminates_witness:
  "(\<exists>st. search 4 sorted_set_order {5}
           [(31, [''abcde'']), (992, [''fghij'']), (31744, [''klmno'']),
            (1015808, [''pqrst'']), (32505856, [''uvwxy'']), (65011712, [''vwxyz''])] = Inr st)
   \<and> {992, 31744} \<inter> {31744, 1015808, 32505856, 65011712} \<subset> {992, 31744 :: int}"
proof -
  let ?idx = "[(31, [''abcde'']), (992, [''fghij'']), (31744, [''klmno'']),
            (1015808, [''pqrst'']), (32505856, [''uvwxy'']), (65011712, [''vwxyz''])]
            :: anagram_index"
  have d: "distinct (map fst ?idx)" by simp
  have four: "(4::nat) \<le> 4" by simp
  have g: "map_of (neighbor_graph ?idx) 992 = Some {31744, 1015808, 32505856, 65011712}"
    using map_of_neighbor_graph[OF d, of 992] by (auto simp: disjoint_after_def)
  from merge_search_terminates[OF d valid_sorted_set_order four, of "{5}"] g
  show ?thesis by blast
qed

end
